theory Spec2Isabelle
  imports Main
begin

section \<open>The editable surface: DOM nodes, positions and ranges\<close>

text \<open>
  The formatting functions of \<^verbatim>\<open>src/app.js\<close> (\<^verbatim>\<open>applyInlineStyle\<close>,
  \<^verbatim>\<open>applyBlockFormat\<close>, \<^verbatim>\<open>toggleList\<close>) work on the DOM subtree of the
  element \<^verbatim>\<open>#noteBody\<close> and on the first range of the window's selection.
  The subtree is a value of type \<open>node\<close>: a text node carries its character data, an
  element its tag name and its child nodes (attributes play no part in the code).
  A node is addressed by the list of child indices that leads to it from
  \<^verbatim>\<open>#noteBody\<close>; the empty list is \<^verbatim>\<open>#noteBody\<close> itself.
\<close>

datatype tag =
  P | DIV | H1 | H2 | H3 | H4 | H5 | H6 | BLOCKQUOTE | LI
  | UL | OL | STRONG | EM | U | S | BR | IMG | SPAN

datatype node = Text string | Element tag "node list"

type_synonym path = "nat list"

record range =
  startContainer :: path
  startOffset :: nat
  endContainer :: path
  endOffset :: nat

text \<open>
  The editor state: the \<^verbatim>\<open>#noteBody\<close> element and the selection's first range
  (\<open>None\<close> when \<^verbatim>\<open>selection.rangeCount\<close> is 0).
\<close>

record editor =
  noteBody :: node
  selection :: "range option"

fun childNodes :: "node \<Rightarrow> node list" where
  "childNodes (Text s) = []"
| "childNodes (Element t cs) = cs"

fun isElement :: "node \<Rightarrow> bool" where
  "isElement (Text s) = False"
| "isElement (Element t cs) = True"

fun hasTag :: "tag \<Rightarrow> node \<Rightarrow> bool" where
  "hasTag tg (Text s) = False"
| "hasTag tg (Element t cs) = (t = tg)"

text \<open>\<^verbatim>\<open>node.textContent\<close>: the character data of the text descendants, in tree order.\<close>

fun textContent :: "node \<Rightarrow> string" where
  "textContent (Text s) = s"
| "textContent (Element t cs) = concat (map textContent cs)"

text \<open>The length of a node, as the DOM standard defines it for boundary points.\<close>

fun nodeLength :: "node \<Rightarrow> nat" where
  "nodeLength (Text s) = length s"
| "nodeLength (Element t cs) = length cs"

fun getNode :: "node \<Rightarrow> path \<Rightarrow> node option" where
  "getNode n [] = Some n"
| "getNode (Text s) (i # p) = None"
| "getNode (Element t cs) (i # p) = (if i < length cs then getNode (cs ! i) p else None)"

text \<open>Rebuilding the tree around a change at one node (the DOM mutates in place).\<close>

fun updateAt :: "path \<Rightarrow> (node \<Rightarrow> node) \<Rightarrow> node \<Rightarrow> node" where
  "updateAt [] f n = f n"
| "updateAt (i # p) f (Text s) = Text s"
| "updateAt (i # p) f (Element t cs) =
     (if i < length cs then Element t (cs[i := updateAt p f (cs ! i)]) else Element t cs)"

text \<open>
  \<^verbatim>\<open>child.replaceWith(...)\<close> and the splice of \<^verbatim>\<open>unwrapElement\<close>: the child at
  index \<open>i\<close> gives way to a list of nodes, the siblings stay where they are.
\<close>

fun replaceChild :: "nat \<Rightarrow> node list \<Rightarrow> node \<Rightarrow> node" where
  "replaceChild i ns (Text s) = Text s"
| "replaceChild i ns (Element t cs) =
     (if i < length cs then Element t (take i cs @ ns @ drop (Suc i) cs) else Element t cs)"

definition replaceAt :: "path \<Rightarrow> node list \<Rightarrow> node \<Rightarrow> node" where
  "replaceAt p ns root =
     (if p = [] then root else updateAt (butlast p) (replaceChild (last p) ns) root)"

subsection \<open>Selection utilities\<close>

text \<open>\<^verbatim>\<open>isRangeEmpty\<close>: \<^verbatim>\<open>range.collapsed\<close>.\<close>

definition isRangeEmpty :: "range \<Rightarrow> bool" where
  "isRangeEmpty r \<longleftrightarrow> startContainer r = endContainer r \<and> startOffset r = endOffset r"

fun commonPrefix :: "path \<Rightarrow> path \<Rightarrow> path" where
  "commonPrefix (i # p) (j # q) = (if i = j then i # commonPrefix p q else [])"
| "commonPrefix p q = []"

text \<open>\<^verbatim>\<open>range.commonAncestorContainer\<close>: the deepest node that contains both boundary points.\<close>

definition commonAncestorContainer :: "range \<Rightarrow> path" where
  "commonAncestorContainer r = commonPrefix (startContainer r) (endContainer r)"

definition blockTags :: "tag list" where
  "blockTags = [P, DIV, H1, H2, H3, H4, H5, H6, BLOCKQUOTE, LI]"

text \<open>The tags of the four inline styles, of the two kinds of list and of the headings.\<close>

definition styleTags :: "tag list" where
  "styleTags = [STRONG, EM, U, S]"

definition listTags :: "tag list" where
  "listTags = [UL, OL]"

definition headingTags :: "tag list" where
  "headingTags = [H1, H2, H3, H4, H5, H6]"

fun isBlockElement :: "node \<Rightarrow> bool" where
  "isBlockElement (Text s) = False"
| "isBlockElement (Element t cs) = (t \<in> set blockTags)"

text \<open>
  \<^verbatim>\<open>findParentBlock\<close>: the first loop leaves a text node for its parent, the second
  climbs until a block element or \<^verbatim>\<open>#noteBody\<close>; \<^verbatim>\<open>#noteBody\<close> gives null.
\<close>

function skipToElement :: "node \<Rightarrow> path \<Rightarrow> path option" where
  "skipToElement root p =
     (case getNode root p of
        None \<Rightarrow> None
      | Some (Element t cs) \<Rightarrow> Some p
      | Some (Text s) \<Rightarrow> (if p = [] then None else skipToElement root (butlast p)))"
  by pat_completeness auto
termination
  by (relation "measure (\<lambda>(root, p). length p)") auto

function climbToBlock :: "node \<Rightarrow> path \<Rightarrow> path option" where
  "climbToBlock root p =
     (if p = [] then None
      else case getNode root p of
        None \<Rightarrow> None
      | Some n \<Rightarrow> (if isBlockElement n then Some p else climbToBlock root (butlast p)))"
  by pat_completeness auto
termination
  by (relation "measure (\<lambda>(root, p). length p)") auto

definition findParentBlock :: "node \<Rightarrow> path \<Rightarrow> path option" where
  "findParentBlock root p =
     (case skipToElement root p of None \<Rightarrow> None | Some q \<Rightarrow> climbToBlock root q)"

text \<open>
  \<^verbatim>\<open>hasParentWithTag\<close>: from the node itself upwards, the first element with the tag
  name; the walk stops at \<^verbatim>\<open>#noteBody\<close>, which is never returned.
\<close>

function hasParentWithTag :: "node \<Rightarrow> path \<Rightarrow> tag \<Rightarrow> path option" where
  "hasParentWithTag root p tg =
     (if p = [] then None
      else case getNode root p of
        None \<Rightarrow> None
      | Some n \<Rightarrow> (if hasTag tg n then Some p else hasParentWithTag root (butlast p) tg))"
  by pat_completeness auto
termination
  by (relation "measure (\<lambda>(root, p, tg). length p)") auto

declare skipToElement.simps [simp del] climbToBlock.simps [simp del]
  hasParentWithTag.simps [simp del]

lemmas climb_simps = skipToElement.simps climbToBlock.simps hasParentWithTag.simps

subsection \<open>Ranges (the DOM standard's algorithms on the tree value)\<close>

text \<open>
  A boundary point is valid when its container exists and its offset is at most the
  container's length; the browser keeps every range valid and its start before its end.
\<close>

definition validBoundary :: "node \<Rightarrow> path \<Rightarrow> nat \<Rightarrow> bool" where
  "validBoundary root p off =
     (case getNode root p of None \<Rightarrow> False | Some n \<Rightarrow> off \<le> nodeLength n)"

fun boundaryLe :: "path \<Rightarrow> nat \<Rightarrow> path \<Rightarrow> nat \<Rightarrow> bool" where
  "boundaryLe [] so [] eo = (so \<le> eo)"
| "boundaryLe (i # sp) so [] eo = (i < eo)"
| "boundaryLe [] so (j # ep) eo = (so \<le> j)"
| "boundaryLe (i # sp) so (j # ep) eo = (if i = j then boundaryLe sp so ep eo else i < j)"

definition validRange :: "node \<Rightarrow> range \<Rightarrow> bool" where
  "validRange root r \<longleftrightarrow>
     validBoundary root (startContainer r) (startOffset r) \<and>
     validBoundary root (endContainer r) (endOffset r) \<and>
     boundaryLe (startContainer r) (startOffset r) (endContainer r) (endOffset r)"

definition validEditor :: "editor \<Rightarrow> bool" where
  "validEditor ed \<longleftrightarrow>
     isElement (noteBody ed) \<and>
     (case selection ed of None \<Rightarrow> True | Some r \<Rightarrow> validRange (noteBody ed) r)"

definition collapsedAt :: "path \<Rightarrow> nat \<Rightarrow> range" where
  "collapsedAt p off =
     \<lparr>startContainer = p, startOffset = off, endContainer = p, endOffset = off\<rparr>"

text \<open>\<^verbatim>\<open>range.selectNodeContents(node)\<close>, for a node of length \<open>n\<close>.\<close>

definition selectNodeContents :: "path \<Rightarrow> nat \<Rightarrow> range" where
  "selectNodeContents p n =
     \<lparr>startContainer = p, startOffset = 0, endContainer = p, endOffset = n\<rparr>"

text \<open>
  A partially contained node is cut at the boundary point inside it: the first
  component is what lies before the boundary, the second what lies after it. Extraction
  clones the node for the part that leaves and keeps the other part in the tree.
\<close>

fun splitNode :: "node \<Rightarrow> path \<Rightarrow> nat \<Rightarrow> node \<times> node" where
  "splitNode (Text s) p off = (Text (take off s), Text (drop off s))"
| "splitNode (Element t cs) [] off = (Element t (take off cs), Element t (drop off cs))"
| "splitNode (Element t cs) (i # p) off =
     (case splitNode (cs ! i) p off of
        (l, r) \<Rightarrow> (Element t (take i cs @ [l]), Element t (r # drop (Suc i) cs)))"

text \<open>
  Extraction inside the common ancestor container, with the boundary points given
  relative to it: the extracted fragment, the container afterwards, and the offset in
  the container (or in the text node, when both boundaries lie in one text node) at
  which the range collapses.
\<close>

fun extractIn :: "node \<Rightarrow> path \<Rightarrow> nat \<Rightarrow> path \<Rightarrow> nat \<Rightarrow> node list \<times> node \<times> nat" where
  "extractIn (Text s) sp so ep eo =
     ([Text (take (eo - so) (drop so s))], Text (take so s @ drop eo s), so)"
| "extractIn (Element t cs) [] so [] eo =
     (take (eo - so) (drop so cs), Element t (take so cs @ drop eo cs), so)"
| "extractIn (Element t cs) (i # sp) so [] eo =
     (case splitNode (cs ! i) sp so of
        (l, r) \<Rightarrow>
          (r # take (eo - Suc i) (drop (Suc i) cs),
           Element t (take i cs @ [l] @ drop eo cs), Suc i))"
| "extractIn (Element t cs) [] so (j # ep) eo =
     (case splitNode (cs ! j) ep eo of
        (l, r) \<Rightarrow>
          (take (j - so) (drop so cs) @ [l],
           Element t (take so cs @ [r] @ drop (Suc j) cs), so))"
| "extractIn (Element t cs) (i # sp) so (j # ep) eo =
     (case splitNode (cs ! i) sp so of
        (l1, r1) \<Rightarrow>
          (case splitNode (cs ! j) ep eo of
             (l2, r2) \<Rightarrow>
               (r1 # take (j - Suc i) (drop (Suc i) cs) @ [l2],
                Element t (take i cs @ [l1, r2] @ drop (Suc j) cs), Suc i)))"

text \<open>
  \<^verbatim>\<open>range.extractContents()\<close>: the fragment, the tree afterwards and the range
  afterwards (collapsed). A collapsed range extracts nothing.
\<close>

definition extractContents :: "node \<Rightarrow> range \<Rightarrow> node list \<times> node \<times> range" where
  "extractContents root r =
     (if isRangeEmpty r then ([], root, r)
      else
        let c = commonAncestorContainer r;
            sp = drop (length c) (startContainer r);
            ep = drop (length c) (endContainer r)
        in case getNode root c of
             None \<Rightarrow> ([], root, r)
           | Some n \<Rightarrow>
               (case extractIn n sp (startOffset r) ep (endOffset r) of
                  (frag, n', off) \<Rightarrow> (frag, updateAt c (\<lambda>_. n') root, collapsedAt c off)))"

text \<open>
  \<^verbatim>\<open>range.deleteContents()\<close> leaves the tree and the range that extraction leaves.
\<close>

definition deleteContents :: "node \<Rightarrow> range \<Rightarrow> node \<times> range" where
  "deleteContents root r = snd (extractContents root r)"

text \<open>
  \<^verbatim>\<open>range.toString()\<close>: the character data inside the range, which is the text of
  the fragment that extraction would take out.
\<close>

definition rangeToString :: "node \<Rightarrow> range \<Rightarrow> string" where
  "rangeToString root r = concat (map textContent (fst (extractContents root r)))"

text \<open>
  \<^verbatim>\<open>range.insertNode(node)\<close> at the boundary point \<open>(p, off)\<close>: a text container is
  split at the offset and the node goes between the halves; an element container
  receives the node as its child of index \<open>off\<close>. The result carries the path of the
  inserted node.
\<close>

definition insertNode :: "node \<Rightarrow> path \<Rightarrow> nat \<Rightarrow> node \<Rightarrow> node \<times> path" where
  "insertNode root p off new =
     (case getNode root p of
        None \<Rightarrow> (root, p)
      | Some (Text s) \<Rightarrow>
          (if p = [] then (root, p)
           else (replaceAt p [Text (take off s), new, Text (drop off s)] root,
                 butlast p @ [Suc (last p)]))
      | Some (Element t cs) \<Rightarrow>
          (updateAt p (\<lambda>_. Element t (take off cs @ [new] @ drop off cs)) root, p @ [off]))"

text \<open>
  A node is partially contained in a range when it is an inclusive ancestor of one
  boundary's container and not of the other's: these are the nodes strictly below the
  common ancestor container on the way to a boundary's container.
\<close>

fun elementBelow :: "node \<Rightarrow> path \<Rightarrow> bool" where
  "elementBelow n [] = False"
| "elementBelow (Text s) (i # p) = False"
| "elementBelow (Element t cs) (i # p) =
     (i < length cs \<and> (isElement (cs ! i) \<or> elementBelow (cs ! i) p))"

definition partiallyContainsNonText :: "node \<Rightarrow> range \<Rightarrow> bool" where
  "partiallyContainsNonText root r =
     (let c = commonAncestorContainer r
      in case getNode root c of
           None \<Rightarrow> False
         | Some n \<Rightarrow>
             elementBelow n (drop (length c) (startContainer r)) \<or>
             elementBelow n (drop (length c) (endContainer r)))"

text \<open>
  \<^verbatim>\<open>range.surroundContents(wrapper)\<close> throws (\<open>None\<close>) when a non-text node is
  partially contained; otherwise it extracts the contents, inserts the wrapper at the
  collapsed range and appends the fragment to the wrapper.
\<close>

definition surroundContents :: "node \<Rightarrow> range \<Rightarrow> tag \<Rightarrow> (node \<times> path) option" where
  "surroundContents root r tagName =
     (if partiallyContainsNonText root r then None
      else case extractContents root r of
        (frag, root1, r1) \<Rightarrow>
          Some (insertNode root1 (startContainer r1) (startOffset r1) (Element tagName frag)))"

text \<open>
  The fallback of \<^verbatim>\<open>applyInlineStyle\<close>: \<^verbatim>\<open>extractContents\<close>, a new wrapper that
  receives the fragment, \<^verbatim>\<open>insertNode\<close>.
\<close>

definition extractAndWrap :: "node \<Rightarrow> range \<Rightarrow> tag \<Rightarrow> node \<times> path" where
  "extractAndWrap root r tagName =
     (case extractContents root r of
        (fragment, root1, r1) \<Rightarrow>
          insertNode root1 (startContainer r1) (startOffset r1) (Element tagName fragment))"

text \<open>
  \<^verbatim>\<open>unwrapElement\<close>: every child moves before the element, in order, then the
  element is removed; no text nodes are joined.
\<close>

definition unwrapElement :: "node \<Rightarrow> path \<Rightarrow> node" where
  "unwrapElement root pe =
     (case getNode root pe of None \<Rightarrow> root | Some e \<Rightarrow> replaceAt pe (childNodes e) root)"

subsection \<open>Markup round trips\<close>

text \<open>
  \<^verbatim>\<open>element.innerHTML\<close> read: the HTML standard's fragment serialisation. Character
  data is written with \<^verbatim>\<open>&\<close>, \<^verbatim>\<open><\<close>, \<^verbatim>\<open>>\<close> and the no-break space escaped; an
  element is written as its start tag, its children and its end tag, and a void element
  (\<^verbatim>\<open>br\<close>, \<^verbatim>\<open>img\<close>) as its start tag alone.
\<close>

definition voidTags :: "tag list" where
  "voidTags = [BR, IMG]"

fun escapeText :: "string \<Rightarrow> string" where
  "escapeText [] = []"
| "escapeText (c # s) =
     (if c = CHR ''&'' then ''&amp;''
      else if c = CHR ''<'' then ''&lt;''
      else if c = CHR ''>'' then ''&gt;''
      else if c = CHR 0xA0 then ''&nbsp;''
      else [c]) @ escapeText s"

fun localName :: "tag \<Rightarrow> string" where
  "localName P = ''p''"
| "localName DIV = ''div''"
| "localName H1 = ''h1''"
| "localName H2 = ''h2''"
| "localName H3 = ''h3''"
| "localName H4 = ''h4''"
| "localName H5 = ''h5''"
| "localName H6 = ''h6''"
| "localName BLOCKQUOTE = ''blockquote''"
| "localName LI = ''li''"
| "localName UL = ''ul''"
| "localName OL = ''ol''"
| "localName STRONG = ''strong''"
| "localName EM = ''em''"
| "localName U = ''u''"
| "localName S = ''s''"
| "localName BR = ''br''"
| "localName IMG = ''img''"
| "localName SPAN = ''span''"

fun serializeNode :: "node \<Rightarrow> string" where
  "serializeNode (Text s) = escapeText s"
| "serializeNode (Element t cs) =
     ''<'' @ localName t @ ''>'' @
     (if t \<in> set voidTags then []
      else concat (map serializeNode cs) @ ''</'' @ localName t @ ''>'')"

definition serialize :: "node list \<Rightarrow> string" where
  "serialize cs = concat (map serializeNode cs)"

text \<open>
  \<^verbatim>\<open>element.innerHTML\<close> written: the markup is parsed as a fragment in the context of
  the element. The parser does not, in general, build the tree that was serialised. It
  drops NUL and turns carriage returns into line feeds; a void element comes back
  without children; the start tag of a block (\<^verbatim>\<open>p\<close>, \<^verbatim>\<open>div\<close>, a heading,
  \<^verbatim>\<open>blockquote\<close>, \<^verbatim>\<open>ul\<close>, \<^verbatim>\<open>ol\<close>, \<^verbatim>\<open>li\<close>) closes a \<^verbatim>\<open>p\<close> element that is
  open, and the end tag of the closed \<^verbatim>\<open>p\<close> then makes an empty paragraph; the start
  tag of a list item closes a list item that is open unless a list lies between; the
  start tag of a heading closes a heading that is its parent.

  \<open>parsesBack\<close> holds for the trees on which none of this applies: paragraphs hold
  text, line breaks, images and style and \<^verbatim>\<open>span\<close> elements only, list items are
  children of lists only, no heading is the child of a heading, void elements have no
  children, and no character data holds NUL or a carriage return. For the markup of such
  a tree the parser gives back the same elements, with one text node for every run of
  character data: adjacent text nodes come back joined and empty ones do not come back
  (\<open>reparse\<close>).
\<close>

definition plainData :: "string \<Rightarrow> bool" where
  "plainData s \<longleftrightarrow> CHR 0x00 \<notin> set s \<and> CHR 0x0D \<notin> set s"

fun isHeading :: "node \<Rightarrow> bool" where
  "isHeading (Text s) = False"
| "isHeading (Element t cs) = (t \<in> set headingTags)"

fun phrasing :: "node \<Rightarrow> bool" where
  "phrasing (Text s) = plainData s"
| "phrasing (Element t cs) =
     (if t \<in> set voidTags then cs = []
      else t \<in> {STRONG, EM, U, S, SPAN} \<and> list_all phrasing cs)"

fun parsesBack :: "node \<Rightarrow> bool" where
  "parsesBack (Text s) = plainData s"
| "parsesBack (Element t cs) =
     (if t \<in> set voidTags then cs = []
      else if t = P then list_all phrasing cs
      else list_all parsesBack cs \<and>
           (if t \<in> set listTags then True else list_all (\<lambda>c. \<not> hasTag LI c) cs) \<and>
           (if t \<in> set headingTags then list_all (\<lambda>c. \<not> isHeading c) cs else True))"

fun joinText :: "node \<Rightarrow> node list \<Rightarrow> node list" where
  "joinText (Text s) ns =
     (if s = [] then ns
      else case ns of Text s' # ms \<Rightarrow> Text (s @ s') # ms | _ \<Rightarrow> Text s # ns)"
| "joinText (Element t cs) ns = Element t cs # ns"

fun reparseNode :: "node \<Rightarrow> node" where
  "reparseNode (Text s) = Text s"
| "reparseNode (Element t cs) = Element t (foldr joinText (map reparseNode cs) [])"

definition reparse :: "node list \<Rightarrow> node list" where
  "reparse cs = foldr joinText (map reparseNode cs) []"

text \<open>
  \<^verbatim>\<open>a.innerHTML = b.innerHTML\<close>, with the children \<open>cs\<close> of \<open>b\<close>: the new children
  of \<open>a\<close>. Where the markup of \<open>cs\<close> does not parse back, they are what the browser's
  fragment parser makes of the markup, which is the parameter \<open>parse\<close>. (The code parses
  in the context of a \<^verbatim>\<open>p\<close>, \<^verbatim>\<open>h1\<close>, \<^verbatim>\<open>h2\<close>, \<^verbatim>\<open>h3\<close>, \<^verbatim>\<open>blockquote\<close> or
  \<^verbatim>\<open>li\<close> element; the standard's parser treats these contexts alike.)
\<close>

definition copyInnerHTML :: "(string \<Rightarrow> node list) \<Rightarrow> node list \<Rightarrow> node list" where
  "copyInnerHTML parse cs =
     (if list_all parsesBack cs then reparse cs else parse (serialize cs))"

text \<open>
  \<^verbatim>\<open>x.innerHTML = range.toString() || '<br>'\<close>: the empty string gives the
  line-break placeholder; a string without \<^verbatim>\<open><\<close>, \<^verbatim>\<open>&\<close>, NUL and carriage return
  parses to one text node with that string; any other string is markup for the
  parser.
\<close>

definition markupFree :: "string \<Rightarrow> bool" where
  "markupFree s \<longleftrightarrow> CHR ''<'' \<notin> set s \<and> CHR ''&'' \<notin> set s \<and> plainData s"

definition htmlOfText :: "(string \<Rightarrow> node list) \<Rightarrow> string \<Rightarrow> node list" where
  "htmlOfText parse s =
     (if s = [] then [Element BR []] else if markupFree s then [Text s] else parse s)"

section \<open>The formatting functions\<close>

subsection \<open>Inline styles\<close>

text \<open>
  The loop of \<^verbatim>\<open>applyInlineStyle\<close> over \<^verbatim>\<open>parent.childNodes\<close>: the index of the
  first child that is a text node with the given content.
\<close>

fun findTextChild :: "node list \<Rightarrow> string \<Rightarrow> nat option" where
  "findTextChild [] s = None"
| "findTextChild (Text s' # ns) s =
     (if s' = s then Some 0 else map_option Suc (findTextChild ns s))"
| "findTextChild (Element t cs # ns) s = map_option Suc (findTextChild ns s)"

text \<open>
  \<^verbatim>\<open>existingStyle && range.toString() === existingStyle.textContent\<close>: the path of
  the styled element to unwrap, when the condition holds.
\<close>

definition styleToRemove :: "tag \<Rightarrow> node \<Rightarrow> range \<Rightarrow> path option" where
  "styleToRemove tagName root r =
     (case hasParentWithTag root (commonAncestorContainer r) tagName of
        None \<Rightarrow> None
      | Some pe \<Rightarrow>
          (case getNode root pe of
             None \<Rightarrow> None
           | Some e \<Rightarrow> if rangeToString root r = textContent e then Some pe else None))"

text \<open>
  When the style is removed and the loop finds no text child, the code sets no range:
  the selection keeps the live range, which the DOM standard's removal steps have moved,
  boundary by boundary, to the parent just behind the freed children.
\<close>

definition applyInlineStyle :: "tag \<Rightarrow> editor \<Rightarrow> editor" where
  "applyInlineStyle tagName ed =
     (case selection ed of
        None \<Rightarrow> ed
      | Some r \<Rightarrow>
          if isRangeEmpty r then ed
          else
            let root = noteBody ed
            in case styleToRemove tagName root r of
                 Some pe \<Rightarrow>
                   (case getNode root pe of
                      None \<Rightarrow> ed
                    | Some existingStyle \<Rightarrow>
                        let parent = butlast pe;
                            content = textContent existingStyle;
                            root' = unwrapElement root pe
                        in case getNode root' parent of
                             None \<Rightarrow> ed
                           | Some pn \<Rightarrow>
                               (case findTextChild (childNodes pn) content of
                                  Some k \<Rightarrow>
                                    \<lparr>noteBody = root',
                                     selection =
                                       Some (selectNodeContents (parent @ [k]) (length content))\<rparr>
                                | None \<Rightarrow>
                                    \<lparr>noteBody = root',
                                     selection =
                                       Some (collapsedAt parent
                                         (last pe + length (childNodes existingStyle)))\<rparr>))
               | None \<Rightarrow>
                   (case (case surroundContents root r tagName of
                            Some res \<Rightarrow> res
                          | None \<Rightarrow> extractAndWrap root r tagName) of
                      (root', wrapper) \<Rightarrow>
                        (case getNode root' wrapper of
                           None \<Rightarrow> ed
                         | Some w \<Rightarrow>
                             \<lparr>noteBody = root',
                              selection = Some (selectNodeContents wrapper (nodeLength w))\<rparr>)))"

subsection \<open>Block formats\<close>

text \<open>
  \<^verbatim>\<open>applyBlockFormat\<close>. Without a parent block the new block receives the range's
  text as markup, the range's contents are deleted and the block is inserted at the
  range; with one, a new element of the other tag receives the block's markup and
  replaces it. Both end with the range collapsed at the end of the new block.
\<close>

definition applyBlockFormat :: "(string \<Rightarrow> node list) \<Rightarrow> tag \<Rightarrow> editor \<Rightarrow> editor" where
  "applyBlockFormat parse tagName ed =
     (case selection ed of
        None \<Rightarrow> ed
      | Some r \<Rightarrow>
          let root = noteBody ed
          in case findParentBlock root (commonAncestorContainer r) of
               None \<Rightarrow>
                 (let content = htmlOfText parse (rangeToString root r)
                  in case deleteContents root r of
                       (root1, r1) \<Rightarrow>
                         (case insertNode root1 (startContainer r1) (startOffset r1)
                                 (Element tagName content) of
                            (root2, newBlock) \<Rightarrow>
                              \<lparr>noteBody = root2,
                               selection = Some (collapsedAt newBlock (length content))\<rparr>))
             | Some pb \<Rightarrow>
                 (case getNode root pb of
                    None \<Rightarrow> ed
                  | Some block \<Rightarrow>
                      let newTagName = (if hasTag tagName block then P else tagName);
                          content = copyInnerHTML parse (childNodes block)
                      in \<lparr>noteBody = replaceAt pb [Element newTagName content] root,
                          selection = Some (collapsedAt pb (length content))\<rparr>))"

subsection \<open>Lists\<close>

text \<open>\<^verbatim>\<open>element.children.length\<close> counts the element children only.\<close>

definition childElementCount :: "node \<Rightarrow> nat" where
  "childElementCount n = length (filter isElement (childNodes n))"

text \<open>
  \<^verbatim>\<open>hasParentWithTag(c, 'UL') || hasParentWithTag(c, 'OL')\<close>: the requested list
  type plays no part in the search.
\<close>

definition findExistingList :: "node \<Rightarrow> path \<Rightarrow> path option" where
  "findExistingList root c =
     (case hasParentWithTag root c UL of
        Some pl \<Rightarrow> Some pl
      | None \<Rightarrow> hasParentWithTag root c OL)"

definition toggleList :: "(string \<Rightarrow> node list) \<Rightarrow> tag \<Rightarrow> editor \<Rightarrow> editor" where
  "toggleList parse listType ed =
     (case selection ed of
        None \<Rightarrow> ed
      | Some r \<Rightarrow>
          let root = noteBody ed;
              c = commonAncestorContainer r;
              block = findParentBlock root c
          in case findExistingList root c of
               Some pl \<Rightarrow>
                 (case hasParentWithTag root c LI of
                    None \<Rightarrow> ed
                  | Some pli \<Rightarrow>
                      (case (getNode root pl, getNode root pli) of
                         (Some existingList, Some li) \<Rightarrow>
                           let content = copyInnerHTML parse (childNodes li);
                               p = Element P content
                           in if childElementCount existingList = 1
                              then \<lparr>noteBody = replaceAt pl [p] root,
                                    selection = Some (collapsedAt pl (length content))\<rparr>
                              else \<lparr>noteBody = replaceAt pli [p] root,
                                    selection = Some (collapsedAt pli (length content))\<rparr>
                       | _ \<Rightarrow> ed))
             | None \<Rightarrow>
                 (case (case block of
                          None \<Rightarrow> None
                        | Some pb \<Rightarrow>
                            (case getNode root pb of
                               None \<Rightarrow> None
                             | Some b \<Rightarrow> if isBlockElement b then Some (pb, b) else None)) of
                    Some (pb, b) \<Rightarrow>
                      let content = copyInnerHTML parse (childNodes b)
                      in \<lparr>noteBody = replaceAt pb [Element listType [Element LI content]] root,
                          selection = Some (collapsedAt (pb @ [0]) (length content))\<rparr>
                  | None \<Rightarrow>
                      (let content = htmlOfText parse (rangeToString root r)
                       in case deleteContents root r of
                            (root1, r1) \<Rightarrow>
                              (case insertNode root1 (startContainer r1) (startOffset r1)
                                      (Element listType [Element LI content]) of
                                 (root2, list) \<Rightarrow>
                                   \<lparr>noteBody = root2,
                                    selection =
                                      Some (collapsedAt (list @ [0]) (length content))\<rparr>))))"

text \<open>Whether an element with the tag occurs in a subtree.\<close>

fun occursTag :: "tag \<Rightarrow> node \<Rightarrow> bool" where
  "occursTag tg (Text s) = False"
| "occursTag tg (Element t cs) = (t = tg \<or> list_ex (occursTag tg) cs)"

text \<open>
  Child lists on which a markup round trip changes nothing: no text node is empty and no
  two text nodes are adjacent, at every depth.
\<close>

fun noTextJoin :: "node list \<Rightarrow> bool" where
  "noTextJoin [] = True"
| "noTextJoin (Text s # ns) =
     (s \<noteq> [] \<and> (case ns of Text s' # ms \<Rightarrow> False | _ \<Rightarrow> noTextJoin ns))"
| "noTextJoin (Element t cs # ns) = noTextJoin ns"

fun textNormal :: "node \<Rightarrow> bool" where
  "textNormal (Text s) = True"
| "textNormal (Element t cs) = (noTextJoin cs \<and> list_all textNormal cs)"

section \<open>The structural invariants of the data model\<close>

text \<open>
  The three invariants of the document model: no inline node (a text node or an element
  with one of the four style tags) is a child of \<^verbatim>\<open>#noteBody\<close>; every child of a
  \<open>UL\<close> or \<open>OL\<close> element, at any depth, is an \<open>LI\<close> element; and no block or
  styled element has an empty child list and no text node is empty (the placeholder of
  a block without content is the \<open>BR\<close> element that the code inserts).
\<close>

fun isInline :: "node \<Rightarrow> bool" where
  "isInline (Text s) = True"
| "isInline (Element t cs) = (t \<in> set styleTags)"

fun listItemsOnly :: "node \<Rightarrow> bool" where
  "listItemsOnly (Text s) = True"
| "listItemsOnly (Element t cs) =
     ((if t \<in> set listTags then list_all (hasTag LI) cs else True) \<and>
      list_all listItemsOnly cs)"

fun neverEmpty :: "node \<Rightarrow> bool" where
  "neverEmpty (Text s) = (s \<noteq> [])"
| "neverEmpty (Element t cs) =
     ((if t \<in> set blockTags \<or> t \<in> set styleTags then cs \<noteq> [] else True) \<and>
      list_all neverEmpty cs)"

text \<open>The first two invariants, the third, and all three.\<close>

definition nestingOk :: "node \<Rightarrow> bool" where
  "nestingOk root = list_all (\<lambda>c. \<not> isInline c \<and> listItemsOnly c) (childNodes root)"

definition contentOk :: "node \<Rightarrow> bool" where
  "contentOk root = list_all neverEmpty (childNodes root)"

definition structureOk :: "node \<Rightarrow> bool" where
  "structureOk root \<longleftrightarrow> nestingOk root \<and> contentOk root"

text \<open>
  A boundary point cuts cleanly when no empty piece is left where the tree is cut at it:
  it lies in the range's common ancestor container, if that is an element, or strictly
  inside its own container.
\<close>

definition cleanCut :: "node \<Rightarrow> path \<Rightarrow> path \<Rightarrow> nat \<Rightarrow> bool" where
  "cleanCut root c p off =
     (case getNode root p of
        None \<Rightarrow> False
      | Some (Text s) \<Rightarrow> 0 < off \<and> off < length s
      | Some (Element t cs) \<Rightarrow> p = c \<or> 0 < off \<and> off < length cs)"

definition cutsInside :: "node \<Rightarrow> range \<Rightarrow> bool" where
  "cutsInside root r \<longleftrightarrow>
     cleanCut root (commonAncestorContainer r) (startContainer r) (startOffset r) \<and>
     cleanCut root (commonAncestorContainer r) (endContainer r) (endOffset r)"

text \<open>Whether the children of the node at a path parse back from their markup.\<close>

definition childrenParseBack :: "node \<Rightarrow> path \<Rightarrow> bool" where
  "childrenParseBack root p =
     (case getNode root p of None \<Rightarrow> False | Some n \<Rightarrow> list_all parsesBack (childNodes n))"

fun tagOf :: "node \<Rightarrow> tag option" where
  "tagOf (Text s) = None"
| "tagOf (Element t cs) = Some t"

text \<open>The tag of the node at a path, and the number of its element children.\<close>

definition tagAt :: "node \<Rightarrow> path \<Rightarrow> tag option" where
  "tagAt root p = (case getNode root p of None \<Rightarrow> None | Some n \<Rightarrow> tagOf n)"

definition elementCountAt :: "node \<Rightarrow> path \<Rightarrow> nat" where
  "elementCountAt root p = (case getNode root p of None \<Rightarrow> 0 | Some n \<Rightarrow> childElementCount n)"

text \<open>
  A selection on which \<open>applyInlineStyle\<close> removes the style from an element whose
  only child is a text node that is not empty, finds that text node again (no earlier
  child of the parent is a text node with the same data), and, called again on the
  result, applies the style.
\<close>

fun onlyText :: "node \<Rightarrow> string option" where
  "onlyText (Element t [Text s]) = Some s"
| "onlyText n = None"

definition freesOneText :: "tag \<Rightarrow> node \<Rightarrow> range \<Rightarrow> bool" where
  "freesOneText k root r =
     (case styleToRemove k root r of
        None \<Rightarrow> False
      | Some pe \<Rightarrow>
          (case getNode root (butlast pe) of
             None \<Rightarrow> False
           | Some parent \<Rightarrow>
               (case getNode root pe of
                  None \<Rightarrow> False
                | Some e \<Rightarrow>
                    (case onlyText e of
                       None \<Rightarrow> False
                     | Some s \<Rightarrow>
                         s \<noteq> [] \<and>
                         findTextChild (take (last pe) (childNodes parent)) s = None \<and>
                         styleToRemove k (replaceAt pe [Text s] root)
                           (selectNodeContents pe (length s)) = None))))"

section \<open>Auxiliary notions for the proofs about ranges\<close>

text \<open>
  The children of the common ancestor container once the extracted fragment is put
  back at the collapsed range, and a child list in which one child is cut in two at a
  boundary point inside it.
\<close>

definition respliced :: "node list \<times> node \<times> nat \<Rightarrow> node list" where
  "respliced x =
     (case x of (frag, n', off) \<Rightarrow>
        take off (childNodes n') @ frag @ drop off (childNodes n'))"

definition splitChild :: "node list \<Rightarrow> nat \<Rightarrow> path \<Rightarrow> nat \<Rightarrow> node list" where
  "splitChild cs i p off =
     (case splitNode (cs ! i) p off of (l, r) \<Rightarrow> take i cs @ [l, r] @ drop (Suc i) cs)"

section \<open>Example editor states\<close>

definition twoItemList :: editor where
  "twoItemList =
     \<lparr>noteBody = Element DIV [Element UL [Element LI [Text ''a''], Element LI [Text ''b'']]],
      selection = Some \<lparr>startContainer = [0, 0, 0], startOffset = 0,
                        endContainer = [0, 1, 0], endOffset = 1\<rparr>\<rparr>"

definition singleItemList :: editor where
  "singleItemList =
     \<lparr>noteBody = Element DIV [Element UL [Element LI [Text ''a'']]],
      selection = Some (collapsedAt [0, 0, 0] 1)\<rparr>"

definition listABC :: editor where
  "listABC =
     \<lparr>noteBody = Element DIV [Element UL [Element LI [Text ''A''], Element LI [Text ''B''], Element LI [Text ''C'']]],
      selection = Some \<lparr>startContainer = [0, 1, 0], startOffset = 0,
                        endContainer = [0, 1, 0], endOffset = 1\<rparr>\<rparr>"

definition plainParagraph :: editor where
  "plainParagraph =
     \<lparr>noteBody = Element DIV [Element P [Text ''hello world'']],
      selection = Some \<lparr>startContainer = [0, 0], startOffset = 0,
                        endContainer = [0, 0], endOffset = 5\<rparr>\<rparr>"

definition adjacentTexts :: editor where
  "adjacentTexts =
     \<lparr>noteBody = Element DIV [Element P [Text ''hello'', Text '' world'']],
      selection = Some (selectNodeContents [0, 0] 5)\<rparr>"

definition boldHello :: editor where
  "boldHello =
     \<lparr>noteBody = Element DIV [Element P [Element STRONG [Text ''hello''], Text '' world'']],
      selection = Some (selectNodeContents [0, 0] 1)\<rparr>"

definition crossingEmphasis :: editor where
  "crossingEmphasis =
     \<lparr>noteBody = Element DIV [Element P [Text ''ab'', Element EM [Text ''cd'']]],
      selection = Some \<lparr>startContainer = [0, 0], startOffset = 1,
                        endContainer = [0, 1, 0], endOffset = 1\<rparr>\<rparr>"

definition markupAcross :: editor where
  "markupAcross =
     \<lparr>noteBody = Element DIV [Element P [Text ''a<u>c''], Element P [Text ''d'']],
      selection = Some \<lparr>startContainer = [0, 0], startOffset = 0,
                        endContainer = [1, 0], endOffset = 1\<rparr>\<rparr>"

definition nestedLists :: editor where
  "nestedLists =
     \<lparr>noteBody = Element DIV [Element UL [Element LI [Text ''x'',
        Element OL [Element LI [Text ''a''], Element LI [Text ''b'']]]]],
      selection = Some (collapsedAt [0, 0, 1, 0, 0] 1)\<rparr>"

definition listInParagraph :: editor where
  "listInParagraph =
     \<lparr>noteBody = Element DIV [Element BLOCKQUOTE
        [Element P [Text ''x'', Element UL [Element LI [Text ''y'']]], Element P [Text ''z'']]],
      selection = Some \<lparr>startContainer = [0, 0, 0], startOffset = 0,
                        endContainer = [0, 1, 0], endOffset = 1\<rparr>\<rparr>"

definition boldEmphasis :: editor where
  "boldEmphasis =
     \<lparr>noteBody = Element DIV [Element P [Element STRONG [Element EM [Text ''hello'']]]],
      selection = Some (selectNodeContents [0, 0] 1)\<rparr>"

definition repeatedWord :: editor where
  "repeatedWord =
     \<lparr>noteBody = Element DIV [Element P [Text ''hi'', Element STRONG [Text ''hi'']]],
      selection = Some (selectNodeContents [0, 1] 1)\<rparr>"

definition midWord :: editor where
  "midWord =
     \<lparr>noteBody = Element DIV [Element P [Text ''hello world'']],
      selection = Some \<lparr>startContainer = [0, 0], startOffset = 2,
                        endContainer = [0, 0], endOffset = 4\<rparr>\<rparr>"

definition twoParagraphs :: editor where
  "twoParagraphs =
     \<lparr>noteBody = Element DIV [Element P [Text ''ab''], Element P [Text ''cd'']],
      selection = Some \<lparr>startContainer = [0, 0], startOffset = 0,
                        endContainer = [1, 0], endOffset = 2\<rparr>\<rparr>"

section \<open>Properties\<close>

subsection \<open>Paths\<close>

lemma getNode_append:
  "getNode n (p @ q) = (case getNode n p of None \<Rightarrow> None | Some m \<Rightarrow> getNode m q)"
proof (induction p arbitrary: n)
  case Nil
  then show ?case by simp
next
  case (Cons i p)
  then show ?case by (cases n) auto
qed

lemma getNode_updateAt_same:
  "getNode n p = Some m \<Longrightarrow> getNode (updateAt p f n) p = Some (f m)"
proof (induction p arbitrary: n)
  case Nil
  then show ?case by simp
next
  case (Cons i p)
  then show ?case by (cases n) (auto split: if_splits)
qed

lemma getNode_parent:
  assumes "p \<noteq> []" and "getNode root p = Some m"
  shows "\<exists>t cs. getNode root (butlast p) = Some (Element t cs) \<and>
           last p < length cs \<and> cs ! last p = m"
proof -
  from assms(1) have p: "p = butlast p @ [last p]" by simp
  from assms(2) have "getNode root (butlast p @ [last p]) = Some m" using p by simp
  then obtain n where n: "getNode root (butlast p) = Some n"
    and m: "getNode n [last p] = Some m"
    by (auto simp: getNode_append split: option.splits)
  from m show ?thesis using n by (cases n) (auto split: if_splits)
qed

lemma getNode_replaceAt_parent:
  assumes "p \<noteq> []" and "getNode root (butlast p) = Some (Element t cs)"
    and "last p < length cs"
  shows "getNode (replaceAt p ns root) (butlast p) =
           Some (Element t (take (last p) cs @ ns @ drop (Suc (last p)) cs))"
  using assms by (simp add: replaceAt_def getNode_updateAt_same)

lemma getNode_replaceAt_single:
  assumes "p \<noteq> []" and "getNode root p = Some m"
  shows "getNode (replaceAt p [x] root) p = Some x"
proof -
  from getNode_parent[OF assms] obtain t cs where
    par: "getNode root (butlast p) = Some (Element t cs)" and i: "last p < length cs"
    by blast
  have "getNode (replaceAt p [x] root) (butlast p @ [last p]) = Some x"
    using getNode_replaceAt_parent[OF assms(1) par i, of "[x]"] i
    by (simp add: getNode_append nth_append)
  with assms(1) show ?thesis by simp
qed

lemma updateAt_updateAt:
  "updateAt p g (updateAt p f n) = updateAt p (g \<circ> f) n"
proof (induction p arbitrary: n)
  case Nil
  then show ?case by simp
next
  case (Cons i p)
  then show ?case by (cases n) simp_all
qed

lemma replaceChild_single_twice:
  "replaceChild i [y] (replaceChild i [x] n) = replaceChild i [y] n"
proof (cases n)
  case (Text s)
  then show ?thesis by simp
next
  case (Element t cs)
  show ?thesis
  proof (cases "i < length cs")
    case True
    then have "i < length (take i cs @ [x] @ drop (Suc i) cs)" by simp
    with True Element show ?thesis by (simp add: min_def)
  next
    case False
    with Element show ?thesis by simp
  qed
qed

lemma replaceAt_single_twice:
  "replaceAt p [y] (replaceAt p [x] root) = replaceAt p [y] root"
proof -
  have "replaceChild (last p) [y] \<circ> replaceChild (last p) [x] = replaceChild (last p) [y]"
    by (rule ext) (simp add: replaceChild_single_twice)
  then show ?thesis by (simp add: replaceAt_def updateAt_updateAt)
qed

subsection \<open>The ancestor walks\<close>

lemma take_butlast_conv: "\<exists>k'. take k (butlast p) = take k' p"
proof
  show "take k (butlast p) = take (min k (length p - 1)) p"
    by (simp add: butlast_conv_take)
qed

lemma hasParentWithTag_Some:
  "hasParentWithTag root p tg = Some q \<Longrightarrow>
     q \<noteq> [] \<and> (\<exists>n. getNode root q = Some n \<and> hasTag tg n) \<and> (\<exists>k. q = take k p)"
proof (induction root p tg rule: hasParentWithTag.induct)
  case (1 root p tg)
  from "1.prems" have ne: "p \<noteq> []"
    by (subst (asm) hasParentWithTag.simps) (simp split: if_splits)
  from "1.prems" ne obtain n where n: "getNode root p = Some n"
    by (subst (asm) hasParentWithTag.simps) (auto split: option.splits)
  show ?case
  proof (cases "hasTag tg n")
    case True
    with ne n "1.prems" have "q = p"
      by (subst (asm) hasParentWithTag.simps) simp
    with ne n True show ?thesis by (auto intro: exI[of _ "length p"])
  next
    case False
    with ne n "1.prems" have "hasParentWithTag root (butlast p) tg = Some q"
      by (subst (asm) hasParentWithTag.simps) simp
    from "1.IH"[OF ne n False this] obtain k where
      "q \<noteq> []" "\<exists>n. getNode root q = Some n \<and> hasTag tg n" "q = take k (butlast p)"
      by blast
    then show ?thesis using take_butlast_conv[of k p] by auto
  qed
qed

lemma climbToBlock_Some:
  "climbToBlock root p = Some q \<Longrightarrow>
     q \<noteq> [] \<and> (\<exists>n. getNode root q = Some n \<and> isBlockElement n) \<and> (\<exists>k. q = take k p)"
proof (induction root p rule: climbToBlock.induct)
  case (1 root p)
  from "1.prems" have ne: "p \<noteq> []"
    by (subst (asm) climbToBlock.simps) (simp split: if_splits)
  from "1.prems" ne obtain n where n: "getNode root p = Some n"
    by (subst (asm) climbToBlock.simps) (auto split: option.splits)
  show ?case
  proof (cases "isBlockElement n")
    case True
    with ne n "1.prems" have "q = p"
      by (subst (asm) climbToBlock.simps) simp
    with ne n True show ?thesis by (auto intro: exI[of _ "length p"])
  next
    case False
    with ne n "1.prems" have "climbToBlock root (butlast p) = Some q"
      by (subst (asm) climbToBlock.simps) simp
    from "1.IH"[OF ne n False this] obtain k where
      "q \<noteq> []" "\<exists>n. getNode root q = Some n \<and> isBlockElement n" "q = take k (butlast p)"
      by blast
    then show ?thesis using take_butlast_conv[of k p] by auto
  qed
qed

lemma skipToElement_Some:
  "skipToElement root p = Some q \<Longrightarrow> \<exists>k. q = take k p"
proof (induction root p rule: skipToElement.induct)
  case (1 root p)
  from "1.prems" obtain n where n: "getNode root p = Some n"
    by (subst (asm) skipToElement.simps) (auto split: option.splits)
  show ?case
  proof (cases n)
    case (Element t cs)
    with n "1.prems" have "q = p"
      by (subst (asm) skipToElement.simps) simp
    then show ?thesis by (auto intro: exI[of _ "length p"])
  next
    case (Text s)
    with n "1.prems" have ne: "p \<noteq> []"
      by (subst (asm) skipToElement.simps) (simp split: if_splits)
    with n Text "1.prems" have "skipToElement root (butlast p) = Some q"
      by (subst (asm) skipToElement.simps) simp
    from "1.IH"[OF n Text ne this] obtain k where "q = take k (butlast p)" by blast
    then show ?thesis using take_butlast_conv[of k p] by auto
  qed
qed

lemma findParentBlock_Some:
  assumes "findParentBlock root p = Some q"
  shows "q \<noteq> [] \<and> (\<exists>n. getNode root q = Some n \<and> isBlockElement n) \<and> (\<exists>k. q = take k p)"
proof -
  from assms obtain q' where s: "skipToElement root p = Some q'"
    and c: "climbToBlock root q' = Some q"
    by (auto simp: findParentBlock_def split: option.splits)
  from skipToElement_Some[OF s] obtain k' where k': "q' = take k' p" ..
  from climbToBlock_Some[OF c] obtain k where
    q: "q \<noteq> []" "\<exists>n. getNode root q = Some n \<and> isBlockElement n" and k: "q = take k q'"
    by blast
  from k k' have "q = take (min k k') p" by simp
  with q show ?thesis by blast
qed

lemma commonPrefix_same: "commonPrefix p p = p"
  by (induction p) simp_all

lemma findParentBlock_self:
  assumes "pb \<noteq> []" and "getNode root pb = Some n" and "isBlockElement n"
  shows "findParentBlock root pb = Some pb"
proof -
  from assms(3) obtain t cs where n: "n = Element t cs" by (cases n) auto
  with assms(2) have "skipToElement root pb = Some pb"
    by (subst skipToElement.simps) simp
  moreover from assms have "climbToBlock root pb = Some pb"
    by (subst climbToBlock.simps) simp
  ultimately show ?thesis by (simp add: findParentBlock_def)
qed

lemma styleToRemove_Some:
  assumes "styleToRemove k root r = Some pe"
  shows "pe \<noteq> [] \<and> (\<exists>e. getNode root pe = Some e \<and> hasTag k e)"
proof -
  from assms have "hasParentWithTag root (commonAncestorContainer r) k = Some pe"
    by (auto simp: styleToRemove_def split: option.splits if_splits)
  from hasParentWithTag_Some[OF this] show ?thesis by blast
qed

subsection \<open>Markup round trips keep the text\<close>

lemma textContent_joinText:
  "concat (map textContent (joinText x ns)) = textContent x @ concat (map textContent ns)"
  by (cases x) (auto split: list.splits node.splits)

lemma textContent_foldr_joinText:
  "concat (map textContent (foldr joinText xs [])) = concat (map textContent xs)"
  by (induction xs) (simp_all add: textContent_joinText)

lemma textContent_reparseNode: "textContent (reparseNode n) = textContent n"
proof (induction n rule: reparseNode.induct)
  case (1 s)
  then show ?case by simp
next
  case (2 t cs)
  then have "map textContent (map reparseNode cs) = map textContent cs" by simp
  then show ?case by (simp add: textContent_foldr_joinText del: map_map)
qed

lemma textContent_reparse:
  "concat (map textContent (reparse cs)) = concat (map textContent cs)"
proof -
  have "map textContent (map reparseNode cs) = map textContent cs"
    by (simp add: textContent_reparseNode)
  then show ?thesis
    unfolding reparse_def by (simp add: textContent_foldr_joinText del: map_map)
qed

lemma foldr_joinText_joinText:
  "foldr joinText (joinText x ys) [] = joinText x (foldr joinText ys [])"
proof (cases x)
  case (Element t cs)
  then show ?thesis by simp
next
  case (Text s)
  show ?thesis
  proof (cases ys)
    case Nil
    with Text show ?thesis by simp
  next
    case (Cons y ms)
    show ?thesis
    proof (cases y)
      case (Element t cs)
      with Text Cons show ?thesis by simp
    next
      case inner: (Text s')
      with Text Cons show ?thesis
        by (cases "foldr joinText ms []") (auto split: node.splits)
    qed
  qed
qed

lemma foldr_joinText_idem:
  "foldr joinText (foldr joinText xs []) [] = foldr joinText xs []"
  by (induction xs) (simp_all add: foldr_joinText_joinText)

lemma joinText_elements:
  "z \<in> set (joinText x ys) \<Longrightarrow> isElement z \<Longrightarrow> z = x \<or> z \<in> set ys"
  by (cases x) (auto split: if_splits list.splits node.splits)

lemma foldr_joinText_elements:
  "z \<in> set (foldr joinText xs []) \<Longrightarrow> isElement z \<Longrightarrow> z \<in> set xs"
proof (induction xs)
  case Nil
  then show ?case by simp
next
  case (Cons x xs)
  from Cons.prems have "z \<in> set (joinText x (foldr joinText xs []))" by simp
  from joinText_elements[OF this Cons.prems(2)] Cons.IH Cons.prems(2)
  show ?case by auto
qed

lemma reparseNode_idem: "reparseNode (reparseNode n) = reparseNode n"
proof (induction n rule: reparseNode.induct)
  case (1 s)
  then show ?case by simp
next
  case (2 t cs)
  let ?ys = "map reparseNode cs"
  have fixed: "reparseNode z = z" if "z \<in> set (foldr joinText ?ys [])" for z
  proof (cases z)
    case (Text s)
    then show ?thesis by simp
  next
    case (Element t' cs')
    with that have "z \<in> set ?ys" using foldr_joinText_elements[of z ?ys] by simp
    with 2 show ?thesis by auto
  qed
  then have "map reparseNode (foldr joinText ?ys []) = foldr joinText ?ys []"
    by (simp add: map_idI)
  then show ?case by (simp add: foldr_joinText_idem)
qed

lemma reparse_idem: "reparse (reparse cs) = reparse cs"
proof -
  have "reparseNode (Element P cs) = Element P (reparse cs)" by (simp add: reparse_def)
  with reparseNode_idem[of "Element P cs"] show ?thesis by (simp add: reparse_def)
qed

lemma foldr_joinText_normal: "noTextJoin xs \<Longrightarrow> foldr joinText xs [] = xs"
proof (induction xs rule: noTextJoin.induct)
  case 1
  then show ?case by simp
next
  case (2 s ns)
  then show ?case by (cases ns) (auto split: node.splits)
next
  case (3 t cs ns)
  then show ?case by simp
qed

lemma reparseNode_normal: "textNormal n \<Longrightarrow> reparseNode n = n"
proof (induction n rule: reparseNode.induct)
  case (1 s)
  then show ?case by simp
next
  case (2 t cs)
  then have "map reparseNode cs = cs"
    by (simp add: map_idI list_all_iff)
  with 2 show ?case by (simp add: foldr_joinText_normal)
qed

lemma reparse_normal:
  "noTextJoin cs \<Longrightarrow> list_all textNormal cs \<Longrightarrow> reparse cs = cs"
  using reparseNode_normal[of "Element P cs"] by (simp add: reparse_def)


subsection \<open>Markup that parses back\<close>

lemma copyInnerHTML_parsesBack:
  "list_all parsesBack cs \<Longrightarrow> copyInnerHTML parse cs = reparse cs"
  by (simp add: copyInnerHTML_def)

lemma list_all_foldr_joinText:
  assumes "list_all Q xs"
    and "\<And>s s'. Q (Text s) \<Longrightarrow> Q (Text s') \<Longrightarrow> Q (Text (s @ s'))"
  shows "list_all Q (foldr joinText xs [])"
  using assms(1)
proof (induction xs)
  case Nil
  then show ?case by simp
next
  case (Cons x xs)
  then have ih: "list_all Q (foldr joinText xs [])" and x: "Q x" by simp_all
  show ?case
  proof (cases x)
    case (Text s)
    with x ih assms(2) show ?thesis
      by (auto split: list.splits node.splits)
  next
    case (Element t cs)
    with x ih show ?thesis by simp
  qed
qed

lemma hasTag_reparseNode: "hasTag tg (reparseNode n) = hasTag tg n"
  by (cases n) simp_all

lemma isHeading_reparseNode: "isHeading (reparseNode n) = isHeading n"
  by (cases n) simp_all

lemma phrasing_reparseNode: "phrasing n \<Longrightarrow> phrasing (reparseNode n)"
proof (induction n rule: reparseNode.induct)
  case (1 s)
  then show ?case by simp
next
  case (2 t cs)
  show ?case
  proof (cases "t \<in> set voidTags")
    case True
    with "2.prems" show ?thesis by simp
  next
    case False
    with "2.prems" have "list_all phrasing cs" and t: "t \<in> {STRONG, EM, U, S, SPAN}"
      by simp_all
    with "2.IH" have "list_all phrasing (map reparseNode cs)"
      by (auto simp: list_all_iff)
    then have "list_all phrasing (foldr joinText (map reparseNode cs) [])"
      by (rule list_all_foldr_joinText) (simp add: plainData_def)
    with False t show ?thesis by simp
  qed
qed

lemma parsesBack_reparseNode: "parsesBack n \<Longrightarrow> parsesBack (reparseNode n)"
proof (induction n rule: reparseNode.induct)
  case (1 s)
  then show ?case by simp
next
  case (2 t cs)
  let ?ys = "foldr joinText (map reparseNode cs) []"
  show ?case
  proof (cases "t \<in> set voidTags")
    case True
    with "2.prems" show ?thesis by simp
  next
    case nv: False
    show ?thesis
    proof (cases "t = P")
      case True
      with "2.prems" nv have "list_all phrasing cs" by simp
      then have "list_all phrasing (map reparseNode cs)"
        by (auto simp: list_all_iff phrasing_reparseNode)
      then have "list_all phrasing ?ys"
        by (rule list_all_foldr_joinText) (simp add: plainData_def)
      with True nv show ?thesis by simp
    next
      case False
      with "2.prems" nv have all: "list_all parsesBack cs"
        and items: "t \<notin> set listTags \<Longrightarrow> list_all (\<lambda>c. \<not> hasTag LI c) cs"
        and heads: "t \<in> set headingTags \<Longrightarrow> list_all (\<lambda>c. \<not> isHeading c) cs"
        by (simp_all split: if_splits)
      from all "2.IH" have "list_all parsesBack (map reparseNode cs)"
        by (auto simp: list_all_iff)
      then have a: "list_all parsesBack ?ys"
        by (rule list_all_foldr_joinText) (simp add: plainData_def)
      have b: "list_all (\<lambda>c. \<not> hasTag LI c) ?ys" if "t \<notin> set listTags"
      proof -
        from items[OF that] have "list_all (\<lambda>c. \<not> hasTag LI c) (map reparseNode cs)"
          by (simp add: list_all_iff hasTag_reparseNode)
        then show ?thesis by (rule list_all_foldr_joinText) simp
      qed
      have c: "list_all (\<lambda>c. \<not> isHeading c) ?ys" if "t \<in> set headingTags"
      proof -
        from heads[OF that] have "list_all (\<lambda>c. \<not> isHeading c) (map reparseNode cs)"
          by (simp add: list_all_iff isHeading_reparseNode)
        then show ?thesis by (rule list_all_foldr_joinText) simp
      qed
      from False nv a b c show ?thesis by simp
    qed
  qed
qed

lemma parsesBack_reparse:
  assumes "list_all parsesBack cs"
  shows "list_all parsesBack (reparse cs)"
proof -
  from assms have "list_all parsesBack (map reparseNode cs)"
    by (auto simp: list_all_iff parsesBack_reparseNode)
  then show ?thesis
    unfolding reparse_def by (rule list_all_foldr_joinText) (simp add: plainData_def)
qed

lemma copyInnerHTML_twice:
  "list_all parsesBack cs \<Longrightarrow> copyInnerHTML parse (copyInnerHTML parse cs) = reparse cs"
  by (simp add: copyInnerHTML_parsesBack parsesBack_reparse reparse_idem)

lemma textContent_copyInnerHTML:
  "list_all parsesBack cs \<Longrightarrow>
     concat (map textContent (copyInnerHTML parse cs)) = concat (map textContent cs)"
  by (simp add: copyInnerHTML_parsesBack textContent_reparse)

subsection \<open>Markup round trips and empty nodes\<close>

lemma foldr_joinText_not_empty:
  assumes "xs \<noteq> []" and "list_all neverEmpty xs"
  shows "foldr joinText xs [] \<noteq> []"
proof -
  from assms(1) obtain x xs' where xs: "xs = x # xs'" by (cases xs) auto
  show ?thesis
  proof (cases x)
    case (Text s)
    with assms(2) xs have "s \<noteq> []" by simp
    with xs Text show ?thesis by (simp split: list.splits node.splits)
  next
    case (Element t cs)
    with xs show ?thesis by simp
  qed
qed

lemma neverEmpty_reparseNode: "neverEmpty n \<Longrightarrow> neverEmpty (reparseNode n)"
proof (induction n rule: reparseNode.induct)
  case (1 s)
  then show ?case by simp
next
  case (2 t cs)
  let ?xs = "map reparseNode cs"
  from "2.prems" "2.IH" have all: "list_all neverEmpty ?xs"
    by (auto simp: list_all_iff)
  then have a: "list_all neverEmpty (foldr joinText ?xs [])"
    by (rule list_all_foldr_joinText) simp
  have b: "foldr joinText ?xs [] \<noteq> []" if "cs \<noteq> []"
    using that all by (intro foldr_joinText_not_empty) simp_all
  from "2.prems" a b show ?case by auto
qed

lemma neverEmpty_reparse:
  assumes "list_all neverEmpty cs"
  shows "list_all neverEmpty (reparse cs)" and "cs \<noteq> [] \<Longrightarrow> reparse cs \<noteq> []"
proof -
  from assms have all: "list_all neverEmpty (map reparseNode cs)"
    by (auto simp: list_all_iff neverEmpty_reparseNode)
  then show "list_all neverEmpty (reparse cs)"
    unfolding reparse_def by (rule list_all_foldr_joinText) simp
  show "reparse cs \<noteq> []" if "cs \<noteq> []"
    unfolding reparse_def using that all by (intro foldr_joinText_not_empty) simp_all
qed

subsection \<open>Collapsed selections and inline styles\<close>

text \<open>
  Claim C9. For every document and every collapsed selection, \<open>applyInlineStyle\<close>
  returns the editor state it was given: the tree and the selection are unchanged, and
  the function has no failure result to signal.
\<close>

theorem inline_collapsed_noop:
  assumes "selection ed = Some r" and "isRangeEmpty r"
  shows "applyInlineStyle tagName ed = ed"
  using assms by (simp add: applyInlineStyle_def)

theorem inline_collapsed_noop_witness:
  "applyInlineStyle STRONG
     \<lparr>noteBody = Element DIV [Element P [Text ''hello world'']],
      selection = Some (collapsedAt [0, 0] 5)\<rparr> =
     \<lparr>noteBody = Element DIV [Element P [Text ''hello world'']],
      selection = Some (collapsedAt [0, 0] 5)\<rparr>"
  by (rule inline_collapsed_noop[where r = "collapsedAt [0, 0] 5"])
     (simp_all add: isRangeEmpty_def collapsedAt_def)

subsection \<open>Lists\<close>

text \<open>
  Claim C10. When the selection lies inside a list (\<open>UL\<close> or \<open>OL\<close>) and no \<open>LI\<close>
  ancestor is found, \<open>toggleList\<close> changes nothing: the tree and the selection are
  those of the input.
\<close>

theorem toggleList_without_item_noop:
  assumes "selection ed = Some r"
    and "findExistingList (noteBody ed) (commonAncestorContainer r) = Some pl"
    and "hasParentWithTag (noteBody ed) (commonAncestorContainer r) LI = None"
  shows "toggleList parse listType ed = ed"
  using assms by (simp add: toggleList_def Let_def)

theorem toggleList_without_item_noop_witness:
  "toggleList (\<lambda>s. [Text s]) OL twoItemList = twoItemList"
  by (rule toggleList_without_item_noop[where pl = "[0]" and
        r = "\<lparr>startContainer = [0, 0, 0], startOffset = 0,
              endContainer = [0, 1, 0], endOffset = 1\<rparr>"])
     (simp_all add: twoItemList_def findExistingList_def commonAncestorContainer_def
        climb_simps)

subsection \<open>Leaving a list\<close>

lemma only_element_child:
  assumes "childElementCount n = 1" and "i < length (childNodes n)"
    and "isElement (childNodes n ! i)"
  shows "filter isElement (childNodes n) = [childNodes n ! i]"
proof -
  from assms(2,3) have "childNodes n ! i \<in> set (filter isElement (childNodes n))" by simp
  moreover from assms(1) obtain x where "filter isElement (childNodes n) = [x]"
    by (auto simp: childElementCount_def length_Suc_conv)
  ultimately show ?thesis by simp
qed

text \<open>
  Claim C5. Let the list that the code finds (the nearest \<open>UL\<close> at or above the
  range's common ancestor, or without one the nearest \<open>OL\<close>) have exactly one
  element child (\<^verbatim>\<open>existingList.children.length === 1\<close>), and let a list item be
  found (the nearest \<open>LI\<close>). Then the list node gives way, at its own position among
  its siblings, to one \<open>P\<close> element that receives the markup of the item found: the
  node at the list's path is then that paragraph, no list, the siblings are untouched,
  and the selection collapses at the paragraph's end. When the item's markup parses
  back, the paragraph holds the item's children with adjacent text nodes joined and
  empty ones dropped, and so the item's text. When the item found is a child of the
  list found, it is the list's one item, as the claim has it.
\<close>

theorem single_item_list_collapses:
  assumes sel: "selection ed = Some r"
    and lst: "findExistingList (noteBody ed) (commonAncestorContainer r) = Some pl"
    and item: "hasParentWithTag (noteBody ed) (commonAncestorContainer r) LI = Some pli"
    and nodes: "getNode (noteBody ed) pl = Some existingList" "getNode (noteBody ed) pli = Some li"
    and one: "childElementCount existingList = 1"
  shows "\<exists>t cs.
           getNode (noteBody ed) (butlast pl) = Some (Element t cs) \<and> last pl < length cs \<and>
           cs ! last pl = existingList \<and>
           noteBody (toggleList parse listType ed) =
             replaceAt pl [Element P (copyInnerHTML parse (childNodes li))] (noteBody ed) \<and>
           getNode (noteBody (toggleList parse listType ed)) (butlast pl) =
             Some (Element t (cs[last pl := Element P (copyInnerHTML parse (childNodes li))])) \<and>
           getNode (noteBody (toggleList parse listType ed)) pl =
             Some (Element P (copyInnerHTML parse (childNodes li))) \<and>
           selection (toggleList parse listType ed) =
             Some (collapsedAt pl (length (copyInnerHTML parse (childNodes li)))) \<and>
           (list_all parsesBack (childNodes li) \<longrightarrow>
              copyInnerHTML parse (childNodes li) = reparse (childNodes li) \<and>
              textContent (Element P (copyInnerHTML parse (childNodes li))) = textContent li) \<and>
           (\<forall>j. pli = pl @ [j] \<longrightarrow> filter isElement (childNodes existingList) = [li])"
proof -
  let ?p = "Element P (copyInnerHTML parse (childNodes li))"
  have ne: "pl \<noteq> []"
    using lst hasParentWithTag_Some[of "noteBody ed" "commonAncestorContainer r" _ pl]
    by (auto simp: findExistingList_def split: option.splits)
  from getNode_parent[OF ne nodes(1)] obtain t cs where
    par: "getNode (noteBody ed) (butlast pl) = Some (Element t cs)"
    and i: "last pl < length cs" and c: "cs ! last pl = existingList"
    by blast
  have res: "toggleList parse listType ed =
      \<lparr>noteBody = replaceAt pl [?p] (noteBody ed),
       selection = Some (collapsedAt pl (length (copyInnerHTML parse (childNodes li))))\<rparr>"
    using sel lst item nodes one by (simp add: toggleList_def Let_def)
  have li_el: "hasTag LI li"
    using hasParentWithTag_Some[OF item] nodes(2) by auto
  have same_text: "textContent ?p = textContent li" if "list_all parsesBack (childNodes li)"
    using li_el textContent_copyInnerHTML[OF that, of parse] by (cases li) simp_all
  have child: "filter isElement (childNodes existingList) = [li]" if "pli = pl @ [j]" for j
  proof -
    from nodes that have "getNode existingList [j] = Some li"
      by (simp add: getNode_append)
    then have j: "j < length (childNodes existingList)" and cj: "childNodes existingList ! j = li"
      by (cases existingList; auto split: if_splits)+
    from li_el have "isElement li" by (cases li) simp_all
    with only_element_child[OF one j] cj show ?thesis by simp
  qed
  have up: "getNode (replaceAt pl [?p] (noteBody ed)) (butlast pl) =
      Some (Element t (cs[last pl := ?p]))"
    using getNode_replaceAt_parent[OF ne par i, of "[?p]"] i
    by (simp add: upd_conv_take_nth_drop)
  have at: "getNode (replaceAt pl [?p] (noteBody ed)) pl = Some ?p"
    by (rule getNode_replaceAt_single[OF ne nodes(1)])
  show ?thesis
    using par i c same_text child up at
    by (simp add: res copyInnerHTML_parsesBack)
qed

theorem single_item_list_collapses_witness:
  "noteBody (toggleList (\<lambda>s. [Text s]) UL singleItemList) = Element DIV [Element P [Text ''a'']] \<and>
   selection (toggleList (\<lambda>s. [Text s]) UL singleItemList) = Some (collapsedAt [0] 1) \<and>
   list_all parsesBack [Text ''a''] \<and>
   filter isElement [Element LI [Text ''a'']] = [Element LI [Text ''a'']]"
  using single_item_list_collapses[of singleItemList "collapsedAt [0, 0, 0] 1" "[0]" "[0, 0]"
      "Element UL [Element LI [Text ''a'']]" "Element LI [Text ''a'']" "\<lambda>s. [Text s]" UL]
  by (simp add: singleItemList_def findExistingList_def commonAncestorContainer_def
      collapsedAt_def childElementCount_def replaceAt_def reparse_def copyInnerHTML_def
      plainData_def climb_simps)

text \<open>
  Claim C5 at a failing input: the item found need not be an item of the list found.
  With the cursor in the first item of an \<open>OL\<close> that lies in the one item of a
  \<open>UL\<close>, the list found is the \<open>UL\<close>, which has one element child, and the item
  found is the inner one: the \<open>UL\<close> gives way to a paragraph that holds the inner
  item's content, and the rest of the list's content is gone.
\<close>

theorem single_item_content_counterexample:
  "validEditor nestedLists \<and> structureOk (noteBody nestedLists) \<and>
   findExistingList (noteBody nestedLists) [0, 0, 1, 0, 0] = Some [0] \<and>
   getNode (noteBody nestedLists) [0] =
     Some (Element UL [Element LI [Text ''x'',
       Element OL [Element LI [Text ''a''], Element LI [Text ''b'']]]]) \<and>
   childElementCount (Element UL [Element LI [Text ''x'',
       Element OL [Element LI [Text ''a''], Element LI [Text ''b'']]]]) = 1 \<and>
   noteBody (toggleList (\<lambda>s. [Text s]) UL nestedLists) = Element DIV [Element P [Text ''a'']] \<and>
   [Text ''a''] \<noteq> reparse [Text ''x'', Element OL [Element LI [Text ''a''], Element LI [Text ''b'']]]"
  by (simp add: nestedLists_def validEditor_def validRange_def validBoundary_def
      structureOk_def nestingOk_def contentOk_def styleTags_def listTags_def blockTags_def collapsedAt_def
      toggleList_def findExistingList_def findParentBlock_def
      commonAncestorContainer_def childElementCount_def replaceAt_def reparse_def
      copyInnerHTML_def plainData_def climb_simps Let_def)

text \<open>
  Claim C4, as amended. \<open>toggleList\<close> never compares the requested list type with
  the type of the list around the selection: inside a list of either type the result
  is the same for every requested type (the toggle-off branch, or nothing without a
  list item). The requested type is used only when the selection is inside no list:
  then the parent block gives way to a new list of the requested type with one item,
  which receives the block's markup (the block's children with adjacent text nodes
  joined and empty ones dropped, when the markup parses back).
\<close>

theorem toggleList_kind_ignored_inside_list:
  assumes sel: "selection ed = Some r"
  shows "(findExistingList (noteBody ed) (commonAncestorContainer r) \<noteq> None \<longrightarrow>
            toggleList parse listType ed = toggleList parse listType' ed) \<and>
         (findExistingList (noteBody ed) (commonAncestorContainer r) = None \<longrightarrow>
            findParentBlock (noteBody ed) (commonAncestorContainer r) = Some pb \<longrightarrow>
            getNode (noteBody ed) pb = Some b \<longrightarrow>
            toggleList parse listType ed =
              \<lparr>noteBody =
                 replaceAt pb [Element listType [Element LI (copyInnerHTML parse (childNodes b))]]
                   (noteBody ed),
               selection =
                 Some (collapsedAt (pb @ [0]) (length (copyInnerHTML parse (childNodes b))))\<rparr> \<and>
            (list_all parsesBack (childNodes b) \<longrightarrow>
               copyInnerHTML parse (childNodes b) = reparse (childNodes b)))"
proof (intro conjI impI)
  assume "findExistingList (noteBody ed) (commonAncestorContainer r) \<noteq> None"
  then obtain pl where "findExistingList (noteBody ed) (commonAncestorContainer r) = Some pl"
    by blast
  with sel show "toggleList parse listType ed = toggleList parse listType' ed"
    by (simp add: toggleList_def Let_def)
next
  assume none: "findExistingList (noteBody ed) (commonAncestorContainer r) = None"
    and blk: "findParentBlock (noteBody ed) (commonAncestorContainer r) = Some pb"
    and b: "getNode (noteBody ed) pb = Some b"
  from findParentBlock_Some[OF blk] b have "isBlockElement b" by auto
  with sel none blk b show "toggleList parse listType ed =
      \<lparr>noteBody =
         replaceAt pb [Element listType [Element LI (copyInnerHTML parse (childNodes b))]]
           (noteBody ed),
       selection =
         Some (collapsedAt (pb @ [0]) (length (copyInnerHTML parse (childNodes b))))\<rparr>"
    by (simp add: toggleList_def Let_def)
next
  assume "list_all parsesBack (childNodes b)"
  then show "copyInnerHTML parse (childNodes b) = reparse (childNodes b)"
    by (rule copyInnerHTML_parsesBack)
qed

theorem toggleList_kind_ignored_inside_list_witness:
  "toggleList (\<lambda>s. [Text s]) UL listABC = toggleList (\<lambda>s. [Text s]) OL listABC \<and>
   toggleList (\<lambda>s. [Text s]) OL plainParagraph =
     \<lparr>noteBody = Element DIV [Element OL [Element LI [Text ''hello world'']]],
      selection = Some (collapsedAt [0, 0] 1)\<rparr>"
  using toggleList_kind_ignored_inside_list[of listABC
      "\<lparr>startContainer = [0, 1, 0], startOffset = 0, endContainer = [0, 1, 0], endOffset = 1\<rparr>"
      "\<lambda>s. [Text s]" UL OL]
    toggleList_kind_ignored_inside_list[of plainParagraph
      "\<lparr>startContainer = [0, 0], startOffset = 0, endContainer = [0, 0], endOffset = 5\<rparr>"
      "\<lambda>s. [Text s]" OL OL "[0]" "Element P [Text ''hello world'']"]
  by (simp add: listABC_def plainParagraph_def findExistingList_def commonAncestorContainer_def
      findParentBlock_def blockTags_def replaceAt_def reparse_def copyInnerHTML_def
      plainData_def climb_simps)

text \<open>
  The claim as stated fails: with the cursor inside a \<open>UL\<close>, requesting \<open>OL\<close>
  takes the toggle-off branch; the one-item list collapses to a paragraph and no
  \<open>OL\<close> is created.
\<close>

theorem opposite_kind_toggles_off_counterexample:
  "findExistingList (noteBody singleItemList) [0, 0, 0] = Some [0] \<and>
   getNode (noteBody singleItemList) [0] = Some (Element UL [Element LI [Text ''a'']]) \<and>
   toggleList (\<lambda>s. [Text s]) OL singleItemList =
     \<lparr>noteBody = Element DIV [Element P [Text ''a'']], selection = Some (collapsedAt [0] 1)\<rparr> \<and>
   \<not> occursTag OL (noteBody (toggleList (\<lambda>s. [Text s]) OL singleItemList))"
  by (simp add: singleItemList_def toggleList_def findExistingList_def
      commonAncestorContainer_def collapsedAt_def childElementCount_def replaceAt_def
      reparse_def copyInnerHTML_def plainData_def findParentBlock_def blockTags_def climb_simps)

text \<open>
  Claim C3, as amended. Let the list that the code finds (the nearest \<open>UL\<close> at or
  above the range's common ancestor, or without one the nearest \<open>OL\<close>) have more or
  fewer than one element child, and let a list item be found (the nearest \<open>LI\<close>).
  Then that item alone is replaced, at its own position, by a \<open>P\<close> element that
  receives the item's markup (the item's children with adjacent text nodes joined and
  empty ones dropped, when the markup parses back), and the selection collapses at the
  paragraph's end. When the item is the child of index \<open>i\<close> of the list, the list
  stays at its position with the same children in the same order, except that the
  paragraph stands where the item stood. No paragraph is placed beside the list.
\<close>

theorem item_replaced_inside_list:
  assumes sel: "selection ed = Some r"
    and lst: "findExistingList (noteBody ed) (commonAncestorContainer r) = Some pl"
    and item: "hasParentWithTag (noteBody ed) (commonAncestorContainer r) LI = Some pli"
    and nodes: "getNode (noteBody ed) pl = Some (Element t cs)" "getNode (noteBody ed) pli = Some li"
    and many: "childElementCount (Element t cs) \<noteq> 1"
  shows "noteBody (toggleList parse listType ed) =
           replaceAt pli [Element P (copyInnerHTML parse (childNodes li))] (noteBody ed) \<and>
         getNode (noteBody (toggleList parse listType ed)) pli =
           Some (Element P (copyInnerHTML parse (childNodes li))) \<and>
         selection (toggleList parse listType ed) =
           Some (collapsedAt pli (length (copyInnerHTML parse (childNodes li)))) \<and>
         (list_all parsesBack (childNodes li) \<longrightarrow>
            copyInnerHTML parse (childNodes li) = reparse (childNodes li)) \<and>
         (\<forall>i. pli = pl @ [i] \<longrightarrow>
            i < length cs \<and> cs ! i = li \<and>
            getNode (noteBody (toggleList parse listType ed)) pl =
              Some (Element t (cs[i := Element P (copyInnerHTML parse (childNodes li))])))"
proof -
  let ?p = "Element P (copyInnerHTML parse (childNodes li))"
  from hasParentWithTag_Some[OF item] have pne: "pli \<noteq> []" by blast
  have res: "toggleList parse listType ed =
      \<lparr>noteBody = replaceAt pli [?p] (noteBody ed),
       selection = Some (collapsedAt pli (length (copyInnerHTML parse (childNodes li))))\<rparr>"
    using sel lst item nodes many by (simp add: toggleList_def Let_def)
  have at: "getNode (replaceAt pli [?p] (noteBody ed)) pli = Some ?p"
    by (rule getNode_replaceAt_single[OF pne nodes(2)])
  have inlist: "i < length cs \<and> cs ! i = li \<and>
      getNode (replaceAt pli [?p] (noteBody ed)) pl = Some (Element t (cs[i := ?p]))"
    if "pli = pl @ [i]" for i
  proof -
    from nodes that have i: "i < length cs" and c: "cs ! i = li"
      by (auto simp: getNode_append split: if_splits)
    from getNode_replaceAt_parent[of "pl @ [i]" "noteBody ed" t cs "[?p]"] nodes(1) i
    have "getNode (replaceAt (pl @ [i]) [?p] (noteBody ed)) pl = Some (Element t (cs[i := ?p]))"
      by (simp add: upd_conv_take_nth_drop)
    with i c that show ?thesis by simp
  qed
  show ?thesis
    using at inlist by (simp add: res copyInnerHTML_parsesBack)
qed

theorem item_replaced_inside_list_witness:
  "noteBody (toggleList (\<lambda>s. [Text s]) UL listABC) =
     Element DIV [Element UL [Element LI [Text ''A''], Element P [Text ''B''], Element LI [Text ''C'']]] \<and>
   list_all parsesBack [Text ''B'']"
  using item_replaced_inside_list[of listABC
      "\<lparr>startContainer = [0, 1, 0], startOffset = 0, endContainer = [0, 1, 0], endOffset = 1\<rparr>"
      "[0]" "[0, 1]" UL "[Element LI [Text ''A''], Element LI [Text ''B''], Element LI [Text ''C'']]"
      "Element LI [Text ''B'']" "\<lambda>s. [Text s]" UL]
  by (simp add: listABC_def findExistingList_def commonAncestorContainer_def
      childElementCount_def replaceAt_def reparse_def copyInnerHTML_def plainData_def
      climb_simps)

text \<open>
  The claim as stated fails on the list \<open>[A, B, C]\<close> with the selection in \<open>B\<close>:
  the result is one list with the children \<open>A\<close>, paragraph \<open>B\<close>, \<open>C\<close>, and not
  the list \<open>[A, C]\<close> followed by a paragraph.
\<close>

theorem paragraph_beside_list_counterexample:
  "noteBody (toggleList (\<lambda>s. [Text s]) UL listABC) =
     Element DIV [Element UL [Element LI [Text ''A''], Element P [Text ''B''], Element LI [Text ''C'']]] \<and>
   noteBody (toggleList (\<lambda>s. [Text s]) UL listABC) \<noteq>
     Element DIV [Element UL [Element LI [Text ''A''], Element LI [Text ''C'']], Element P [Text ''B'']]"
  by (simp add: listABC_def toggleList_def findExistingList_def
      commonAncestorContainer_def collapsedAt_def childElementCount_def replaceAt_def
      reparse_def copyInnerHTML_def plainData_def findParentBlock_def blockTags_def climb_simps)

subsection \<open>Block formats\<close>

lemma applyBlockFormat_on_block:
  assumes "selection ed = Some r"
    and "findParentBlock (noteBody ed) (commonAncestorContainer r) = Some pb"
    and "getNode (noteBody ed) pb = Some (Element t cs)"
  shows "applyBlockFormat parse k ed =
           \<lparr>noteBody =
              replaceAt pb [Element (if t = k then P else k) (copyInnerHTML parse cs)] (noteBody ed),
            selection = Some (collapsedAt pb (length (copyInnerHTML parse cs)))\<rparr>"
  using assms by (simp add: applyBlockFormat_def Let_def)

text \<open>
  Claim C6, as amended. When a parent block of the range's common ancestor exists, a
  requested heading or blockquote tag replaces the block by a \<open>P\<close> element when the
  block already has the tag, and by an element of the requested tag otherwise; the new
  element receives the block's markup. Applied again at the returned selection the tag
  flips back, and a third application gives the tag of the first. When the block's
  markup parses back, the new element's children are the block's children with adjacent
  text nodes joined and empty ones dropped: the same text, and the same children when
  no text node is empty and no two are adjacent; the second and the third application
  then leave these children as they are, so that the third gives the result of the
  first.
\<close>

theorem block_format_toggles_tag:
  assumes sel: "selection ed = Some r"
    and blk: "findParentBlock (noteBody ed) (commonAncestorContainer r) = Some pb"
    and node: "getNode (noteBody ed) pb = Some (Element t cs)"
    and kind: "k \<in> {H1, H2, H3, BLOCKQUOTE}"
  shows "applyBlockFormat parse k ed =
           \<lparr>noteBody =
              replaceAt pb [Element (if t = k then P else k) (copyInnerHTML parse cs)] (noteBody ed),
            selection = Some (collapsedAt pb (length (copyInnerHTML parse cs)))\<rparr> \<and>
         getNode (noteBody (applyBlockFormat parse k ed)) pb =
           Some (Element (if t = k then P else k) (copyInnerHTML parse cs)) \<and>
         applyBlockFormat parse k (applyBlockFormat parse k ed) =
           \<lparr>noteBody =
              replaceAt pb [Element (if t = k then k else P)
                (copyInnerHTML parse (copyInnerHTML parse cs))] (noteBody ed),
            selection =
              Some (collapsedAt pb (length (copyInnerHTML parse (copyInnerHTML parse cs))))\<rparr> \<and>
         applyBlockFormat parse k (applyBlockFormat parse k (applyBlockFormat parse k ed)) =
           \<lparr>noteBody =
              replaceAt pb [Element (if t = k then P else k)
                (copyInnerHTML parse (copyInnerHTML parse (copyInnerHTML parse cs)))] (noteBody ed),
            selection =
              Some (collapsedAt pb
                (length (copyInnerHTML parse (copyInnerHTML parse (copyInnerHTML parse cs)))))\<rparr> \<and>
         (list_all parsesBack cs \<longrightarrow>
            copyInnerHTML parse cs = reparse cs \<and>
            concat (map textContent (reparse cs)) = concat (map textContent cs) \<and>
            (noTextJoin cs \<and> list_all textNormal cs \<longrightarrow> reparse cs = cs) \<and>
            applyBlockFormat parse k (applyBlockFormat parse k ed) =
              \<lparr>noteBody = replaceAt pb [Element (if t = k then k else P) (reparse cs)] (noteBody ed),
               selection = Some (collapsedAt pb (length (reparse cs)))\<rparr> \<and>
            applyBlockFormat parse k (applyBlockFormat parse k (applyBlockFormat parse k ed)) =
              applyBlockFormat parse k ed)"
proof -
  let ?root = "noteBody ed"
  let ?t1 = "if t = k then P else k"
  let ?t2 = "if t = k then k else P"
  let ?c1 = "copyInnerHTML parse cs"
  let ?c2 = "copyInnerHTML parse ?c1"
  let ?c3 = "copyInnerHTML parse ?c2"
  let ?ed1 = "\<lparr>noteBody = replaceAt pb [Element ?t1 ?c1] ?root,
               selection = Some (collapsedAt pb (length ?c1))\<rparr>"
  let ?ed2 = "\<lparr>noteBody = replaceAt pb [Element ?t2 ?c2] ?root,
               selection = Some (collapsedAt pb (length ?c2))\<rparr>"
  let ?ed3 = "\<lparr>noteBody = replaceAt pb [Element ?t1 ?c3] ?root,
               selection = Some (collapsedAt pb (length ?c3))\<rparr>"
  from findParentBlock_Some[OF blk] have ne: "pb \<noteq> []" by blast
  have once: "applyBlockFormat parse k ed = ?ed1"
    by (rule applyBlockFormat_on_block[OF sel blk node])
  have ca: "commonAncestorContainer (collapsedAt pb n) = pb" for n
    by (simp add: commonAncestorContainer_def collapsedAt_def commonPrefix_same)
  have kb: "k \<in> set blockTags" using kind by (auto simp: blockTags_def)
  have kP: "k \<noteq> P" using kind by auto
  have n1: "getNode (noteBody ?ed1) pb = Some (Element ?t1 ?c1)"
    using getNode_replaceAt_single[OF ne node] by simp
  have b1: "findParentBlock (noteBody ?ed1) (commonAncestorContainer (collapsedAt pb (length ?c1))) =
      Some pb"
    unfolding ca using kb by (intro findParentBlock_self[OF ne n1]) (simp add: blockTags_def)
  have twice: "applyBlockFormat parse k ?ed1 = ?ed2"
    using applyBlockFormat_on_block[OF _ b1 n1, of parse k] kP
    by (simp add: replaceAt_single_twice)
  have n2: "getNode (noteBody ?ed2) pb = Some (Element ?t2 ?c2)"
    using getNode_replaceAt_single[OF ne node] by simp
  have b2: "findParentBlock (noteBody ?ed2) (commonAncestorContainer (collapsedAt pb (length ?c2))) =
      Some pb"
    unfolding ca using kb by (intro findParentBlock_self[OF ne n2]) (simp add: blockTags_def)
  have thrice: "applyBlockFormat parse k ?ed2 = ?ed3"
    using applyBlockFormat_on_block[OF _ b2 n2, of parse k] kP
    by (simp add: replaceAt_single_twice)
  have two: "applyBlockFormat parse k (applyBlockFormat parse k ed) = ?ed2"
    by (simp only: once twice)
  have three: "applyBlockFormat parse k (applyBlockFormat parse k (applyBlockFormat parse k ed)) =
      ?ed3"
    by (simp only: once twice thrice)
  have cond: "?c1 = reparse cs \<and>
      concat (map textContent (reparse cs)) = concat (map textContent cs) \<and>
      (noTextJoin cs \<and> list_all textNormal cs \<longrightarrow> reparse cs = cs) \<and>
      applyBlockFormat parse k (applyBlockFormat parse k ed) =
        \<lparr>noteBody = replaceAt pb [Element ?t2 (reparse cs)] ?root,
         selection = Some (collapsedAt pb (length (reparse cs)))\<rparr> \<and>
      applyBlockFormat parse k (applyBlockFormat parse k (applyBlockFormat parse k ed)) =
        applyBlockFormat parse k ed"
    if pb: "list_all parsesBack cs"
  proof -
    have d1: "copyInnerHTML parse cs = reparse cs" by (rule copyInnerHTML_parsesBack[OF pb])
    have d2: "copyInnerHTML parse (reparse cs) = reparse cs"
      by (simp add: copyInnerHTML_parsesBack parsesBack_reparse[OF pb] reparse_idem)
    show ?thesis
      apply (simp only: three)
      apply (simp only: two)
      apply (simp only: once)
      apply (simp add: d1 d2 textContent_reparse reparse_normal)
      done
  qed
  have g: "getNode (noteBody (applyBlockFormat parse k ed)) pb = Some (Element ?t1 ?c1)"
    using n1 by (simp only: once)
  show ?thesis
    by (intro conjI) (rule once, rule g, rule two, rule three, rule impI, erule cond)
qed

theorem block_format_toggles_tag_witness:
  "applyBlockFormat (\<lambda>s. [Text s]) H1 plainParagraph =
     \<lparr>noteBody = Element DIV [Element H1 [Text ''hello world'']],
      selection = Some (collapsedAt [0] 1)\<rparr> \<and>
   applyBlockFormat (\<lambda>s. [Text s]) H1 (applyBlockFormat (\<lambda>s. [Text s]) H1 plainParagraph) =
     \<lparr>noteBody = Element DIV [Element P [Text ''hello world'']],
      selection = Some (collapsedAt [0] 1)\<rparr> \<and>
   applyBlockFormat (\<lambda>s. [Text s]) H1 (applyBlockFormat (\<lambda>s. [Text s]) H1
       (applyBlockFormat (\<lambda>s. [Text s]) H1 plainParagraph)) =
     \<lparr>noteBody = Element DIV [Element H1 [Text ''hello world'']],
      selection = Some (collapsedAt [0] 1)\<rparr> \<and>
   list_all parsesBack [Text ''hello world''] \<and>
   noTextJoin [Text ''hello world''] \<and> list_all textNormal [Text ''hello world''] \<and>
   reparse [Text ''hello world''] = [Text ''hello world'']"
proof -
  let ?r = "\<lparr>startContainer = [0, 0], startOffset = 0, endContainer = [0, 0], endOffset = 5\<rparr>"
  have body: "noteBody plainParagraph = Element DIV [Element P [Text ''hello world'']]"
    by (simp add: plainParagraph_def)
  have sel: "selection plainParagraph = Some ?r"
    by (simp add: plainParagraph_def)
  have blk: "findParentBlock (noteBody plainParagraph) (commonAncestorContainer ?r) = Some [0]"
    by (simp add: body commonAncestorContainer_def findParentBlock_def blockTags_def climb_simps)
  have node: "getNode (noteBody plainParagraph) [0] = Some (Element P [Text ''hello world''])"
    by (simp add: body)
  have kind: "H1 \<in> {H1, H2, H3, BLOCKQUOTE}" by simp
  have parses: "list_all parsesBack [Text ''hello world'']" by (simp add: plainData_def)
  have plain: "noTextJoin [Text ''hello world''] \<and> list_all textNormal [Text ''hello world'']"
    by simp
  note facts = block_format_toggles_tag[OF sel blk node kind, of "\<lambda>s. [Text s]"]
  note cond = facts[THEN conjunct2, THEN conjunct2, THEN conjunct2, THEN conjunct2,
      THEN mp, OF parses]
  note once = facts[THEN conjunct1]
  note copy = cond[THEN conjunct1]
  note verbatim = cond[THEN conjunct2, THEN conjunct2, THEN conjunct1, THEN mp, OF plain]
  note twice = cond[THEN conjunct2, THEN conjunct2, THEN conjunct2, THEN conjunct1]
  note thrice = cond[THEN conjunct2, THEN conjunct2, THEN conjunct2, THEN conjunct2]
  have steps: "applyBlockFormat (\<lambda>s. [Text s]) H1 plainParagraph =
     \<lparr>noteBody = Element DIV [Element H1 [Text ''hello world'']],
      selection = Some (collapsedAt [0] 1)\<rparr> \<and>
   applyBlockFormat (\<lambda>s. [Text s]) H1 (applyBlockFormat (\<lambda>s. [Text s]) H1 plainParagraph) =
     \<lparr>noteBody = Element DIV [Element P [Text ''hello world'']],
      selection = Some (collapsedAt [0] 1)\<rparr> \<and>
   applyBlockFormat (\<lambda>s. [Text s]) H1 (applyBlockFormat (\<lambda>s. [Text s]) H1
       (applyBlockFormat (\<lambda>s. [Text s]) H1 plainParagraph)) =
     \<lparr>noteBody = Element DIV [Element H1 [Text ''hello world'']],
      selection = Some (collapsedAt [0] 1)\<rparr>"
    apply (simp only: thrice)
    apply (simp only: twice)
    apply (simp only: once copy)
    apply (simp add: body replaceAt_def reparse_def)
    done
  from steps parses plain verbatim show ?thesis by blast
qed

text \<open>
  The claim as stated fails where it says the children are kept verbatim. A paragraph
  with two adjacent text nodes becomes a heading with one text node. And where the
  block's markup does not parse back, the children are whatever the parser builds from
  it: for a blockquote whose first paragraph holds a list, they are built from the
  markup \<^verbatim>\<open><p>x<ul><li>y</li></ul></p><p>z</p>\<close>, in which the parser closes the
  paragraph before the list and makes an empty paragraph of the end tag left over.
\<close>

theorem children_verbatim_counterexample:
  "findParentBlock (noteBody adjacentTexts) [0, 0] = Some [0] \<and>
   getNode (noteBody adjacentTexts) [0] = Some (Element P [Text ''hello'', Text '' world'']) \<and>
   noteBody (applyBlockFormat (\<lambda>s. [Text s]) H1 adjacentTexts) =
     Element DIV [Element H1 [Text ''hello world'']] \<and>
   [Text ''hello world''] \<noteq> childNodes (Element P [Text ''hello'', Text '' world'']) \<and>
   findParentBlock (noteBody listInParagraph) [0] = Some [0] \<and>
   (\<forall>parse. noteBody (applyBlockFormat parse H1 listInParagraph) =
      Element DIV [Element H1 (parse ''<p>x<ul><li>y</li></ul></p><p>z</p>'')])"
  by (simp add: adjacentTexts_def listInParagraph_def applyBlockFormat_def selectNodeContents_def
      commonAncestorContainer_def findParentBlock_def blockTags_def replaceAt_def reparse_def
      copyInnerHTML_def plainData_def serialize_def voidTags_def listTags_def headingTags_def
      climb_simps Let_def)

text \<open>
  Adjacent and empty text nodes are states the code itself produces: applying and
  removing a bold style on the first word of a paragraph leaves three text nodes.
\<close>

lemma adjacent_texts_arise:
  "noteBody (applyInlineStyle STRONG (applyInlineStyle STRONG plainParagraph)) =
     Element DIV [Element P [Text [], Text ''hello'', Text '' world'']]"
  by (simp add: plainParagraph_def applyInlineStyle_def styleToRemove_def
      commonAncestorContainer_def isRangeEmpty_def rangeToString_def extractContents_def
      surroundContents_def partiallyContainsNonText_def insertNode_def collapsedAt_def
      selectNodeContents_def unwrapElement_def replaceAt_def climb_simps Let_def)

subsection \<open>Removing an inline style\<close>

lemma findTextChild_append:
  "findTextChild xs s = None \<Longrightarrow>
     findTextChild (xs @ ys) s = map_option (\<lambda>k. length xs + k) (findTextChild ys s)"
proof (induction xs s rule: findTextChild.induct)
  case (1 s)
  then show ?case by (simp add: option.map_ident)
next
  case (2 s' ns s)
  then show ?case by (auto simp: option.map_comp comp_def split: if_splits)
next
  case (3 t cs ns s)
  then show ?case by (auto simp: option.map_comp comp_def)
qed

text \<open>
  Claim C8, as amended. When an element with the style's tag is found at or above the
  range's common ancestor and the range's text equals the element's text content, the
  element is unwrapped: its children take its place among the parent's children, in
  order, and the siblings stay. No text nodes are joined. The selection becomes the
  contents of the first text child of the parent whose data is the element's text, and
  collapses behind the freed children when there is none; when the element's only
  child is a text node and no earlier sibling is a text node with the same data, the
  selection is exactly the contents of the freed text node.
\<close>

theorem unwrap_splices_children:
  assumes sel: "selection ed = Some r"
    and ne: "\<not> isRangeEmpty r"
    and found: "hasParentWithTag (noteBody ed) (commonAncestorContainer r) tagName = Some pe"
    and node: "getNode (noteBody ed) pe = Some e"
    and covers: "rangeToString (noteBody ed) r = textContent e"
  shows "\<exists>t cs.
           getNode (noteBody ed) (butlast pe) = Some (Element t cs) \<and>
           last pe < length cs \<and> cs ! last pe = e \<and>
           noteBody (applyInlineStyle tagName ed) = replaceAt pe (childNodes e) (noteBody ed) \<and>
           getNode (noteBody (applyInlineStyle tagName ed)) (butlast pe) =
             Some (Element t (take (last pe) cs @ childNodes e @ drop (Suc (last pe)) cs)) \<and>
           selection (applyInlineStyle tagName ed) =
             (case findTextChild (take (last pe) cs @ childNodes e @ drop (Suc (last pe)) cs)
                     (textContent e) of
                Some k \<Rightarrow> Some (selectNodeContents (butlast pe @ [k]) (length (textContent e)))
              | None \<Rightarrow>
                  Some (collapsedAt (butlast pe) (last pe + length (childNodes e)))) \<and>
           (\<forall>s. childNodes e = [Text s] \<longrightarrow> findTextChild (take (last pe) cs) s = None \<longrightarrow>
              selection (applyInlineStyle tagName ed) = Some (selectNodeContents pe (length s)))"
proof -
  let ?root = "noteBody ed"
  from hasParentWithTag_Some[OF found] have pne: "pe \<noteq> []" and tagged: "hasTag tagName e"
    using node by auto
  from getNode_parent[OF pne node] obtain t cs where
    par: "getNode ?root (butlast pe) = Some (Element t cs)"
    and i: "last pe < length cs" and c: "cs ! last pe = e"
    by blast
  let ?cs' = "take (last pe) cs @ childNodes e @ drop (Suc (last pe)) cs"
  have rm: "styleToRemove tagName ?root r = Some pe"
    using found node covers by (simp add: styleToRemove_def)
  have par': "getNode (unwrapElement ?root pe) (butlast pe) = Some (Element t ?cs')"
    using getNode_replaceAt_parent[OF pne par i, of "childNodes e"] node
    by (simp add: unwrapElement_def)
  have body: "noteBody (applyInlineStyle tagName ed) = replaceAt pe (childNodes e) ?root"
    using sel ne rm node par'
    by (simp add: applyInlineStyle_def Let_def unwrapElement_def split: option.splits)
  have selres: "selection (applyInlineStyle tagName ed) =
      (case findTextChild ?cs' (textContent e) of
         Some k \<Rightarrow> Some (selectNodeContents (butlast pe @ [k]) (length (textContent e)))
       | None \<Rightarrow> Some (collapsedAt (butlast pe) (last pe + length (childNodes e))))"
    using sel ne rm node par'
    by (simp add: applyInlineStyle_def Let_def split: option.splits)
  have single: "selection (applyInlineStyle tagName ed) = Some (selectNodeContents pe (length s))"
    if one: "childNodes e = [Text s]" and first: "findTextChild (take (last pe) cs) s = None" for s
  proof -
    from tagged one have tc: "textContent e = s" by (cases e) simp_all
    from i have len: "length (take (last pe) cs) = last pe" by simp
    have "findTextChild ?cs' s = Some (last pe)"
      using findTextChild_append[OF first, of "Text s # drop (Suc (last pe)) cs"] one len
      by simp
    with selres tc pne show ?thesis by simp
  qed
  show ?thesis
    using par i c body selres single par' by (auto simp: unwrapElement_def node)
qed

theorem unwrap_splices_children_witness:
  "noteBody (applyInlineStyle STRONG boldHello) =
     Element DIV [Element P [Text ''hello'', Text '' world'']] \<and>
   selection (applyInlineStyle STRONG boldHello) = Some (selectNodeContents [0, 0] 5)"
proof -
  have body: "noteBody boldHello =
      Element DIV [Element P [Element STRONG [Text ''hello''], Text '' world'']]"
    by (simp add: boldHello_def)
  have sel: "selection boldHello = Some (selectNodeContents [0, 0] 1)"
    by (simp add: boldHello_def)
  have ne: "\<not> isRangeEmpty (selectNodeContents [0, 0] 1)"
    by (simp add: isRangeEmpty_def selectNodeContents_def)
  have found: "hasParentWithTag (noteBody boldHello)
      (commonAncestorContainer (selectNodeContents [0, 0] 1)) STRONG = Some [0, 0]"
    by (simp add: body commonAncestorContainer_def selectNodeContents_def climb_simps)
  have node: "getNode (noteBody boldHello) [0, 0] = Some (Element STRONG [Text ''hello''])"
    by (simp add: body)
  have covers: "rangeToString (noteBody boldHello) (selectNodeContents [0, 0] 1) =
      textContent (Element STRONG [Text ''hello''])"
    by (simp add: body rangeToString_def extractContents_def isRangeEmpty_def
        commonAncestorContainer_def selectNodeContents_def)
  from unwrap_splices_children[OF sel ne found node covers] obtain t cs where
    par: "getNode (noteBody boldHello) (butlast [0, 0]) = Some (Element t cs)"
    and res: "noteBody (applyInlineStyle STRONG boldHello) =
        replaceAt [0, 0] (childNodes (Element STRONG [Text ''hello''])) (noteBody boldHello)"
    and one: "\<forall>s. childNodes (Element STRONG [Text ''hello'']) = [Text s] \<longrightarrow>
        findTextChild (take (last [0, 0]) cs) s = None \<longrightarrow>
        selection (applyInlineStyle STRONG boldHello) =
          Some (selectNodeContents [0, 0] (length s))"
    by blast
  from par have "cs = [Element STRONG [Text ''hello''], Text '' world'']"
    by (simp add: body)
  with one res show ?thesis by (simp add: body replaceAt_def eval_nat_numeral)
qed

text \<open>
  The claim as stated fails where it says adjacent text nodes are merged: unwrapping
  the bold first word of a paragraph leaves two text nodes side by side.
\<close>

theorem unwrap_merges_text_counterexample:
  "applyInlineStyle STRONG boldHello =
     \<lparr>noteBody = Element DIV [Element P [Text ''hello'', Text '' world'']],
      selection = Some (selectNodeContents [0, 0] 5)\<rparr> \<and>
   noteBody (applyInlineStyle STRONG boldHello) \<noteq>
     Element DIV [Element P [Text ''hello world'']]"
  by (simp add: boldHello_def applyInlineStyle_def styleToRemove_def
      commonAncestorContainer_def isRangeEmpty_def rangeToString_def extractContents_def
      selectNodeContents_def unwrapElement_def replaceAt_def climb_simps Let_def)

subsection \<open>The structural invariants\<close>

lemma list_all_take: "list_all Q cs \<Longrightarrow> list_all Q (take i cs)"
  by (auto simp: list_all_iff dest: in_set_takeD)

lemma list_all_drop: "list_all Q cs \<Longrightarrow> list_all Q (drop i cs)"
  by (auto simp: list_all_iff dest: in_set_dropD)

lemma list_all_update: "list_all Q cs \<Longrightarrow> Q x \<Longrightarrow> list_all Q (cs[i := x])"
  by (induction cs arbitrary: i) (auto split: nat.splits)

lemma hasTag_tagOf: "hasTag tg n = (tagOf n = Some tg)"
  by (cases n) auto

lemma isInline_tagOf: "tagOf a = tagOf b \<Longrightarrow> isInline a = isInline b"
  by (cases a; cases b) auto

lemma tagOf_updateAt:
  "getNode m p = Some n \<Longrightarrow> tagOf (f n) = tagOf n \<Longrightarrow> tagOf (updateAt p f m) = tagOf m"
  by (cases p; cases m) (auto split: if_splits)

lemma tagOf_replaceChild: "tagOf (replaceChild i ns n) = tagOf n"
  by (cases n) auto

lemma listItemsOnly_getNode:
  "listItemsOnly root \<Longrightarrow> getNode root p = Some n \<Longrightarrow> listItemsOnly n"
proof (induction p arbitrary: root)
  case Nil
  then show ?case by simp
next
  case (Cons i p)
  then show ?case
    by (cases root) (auto split: if_splits simp: list_all_length)
qed

lemma listItemsOnly_updateAt:
  "listItemsOnly root \<Longrightarrow> getNode root p = Some n \<Longrightarrow> listItemsOnly (f n) \<Longrightarrow>
     tagOf (f n) = tagOf n \<Longrightarrow> listItemsOnly (updateAt p f root)"
proof (induction p arbitrary: root)
  case Nil
  then show ?case by simp
next
  case (Cons i p)
  show ?case
  proof (cases root)
    case (Text s)
    with Cons.prems show ?thesis by simp
  next
    case (Element t cs)
    with Cons.prems have i: "i < length cs" and sub: "getNode (cs ! i) p = Some n"
      by (auto split: if_splits)
    from Cons.prems(1) Element i have ok: "listItemsOnly (cs ! i)"
      by (simp add: list_all_length)
    have new: "listItemsOnly (updateAt p f (cs ! i))"
      by (rule Cons.IH[OF ok sub Cons.prems(3) Cons.prems(4)])
    have same: "tagOf (updateAt p f (cs ! i)) = tagOf (cs ! i)"
      by (rule tagOf_updateAt[where f = f, OF sub Cons.prems(4)])
    have "list_all listItemsOnly (cs[i := updateAt p f (cs ! i)])"
      using Cons.prems(1) Element new by (simp add: list_all_update)
    moreover have "list_all (hasTag LI) (cs[i := updateAt p f (cs ! i)])"
      if all: "list_all (hasTag LI) cs"
    proof -
      from all i have "hasTag LI (cs ! i)" by (simp add: list_all_length)
      with same have "hasTag LI (updateAt p f (cs ! i))" by (simp add: hasTag_tagOf)
      with all show ?thesis by (simp add: list_all_update)
    qed
    ultimately show ?thesis
      using Cons.prems(1) Element i by auto
  qed
qed

lemma listItemsOnly_replaceChild:
  assumes "listItemsOnly n" and "list_all listItemsOnly ns"
    and "\<not> hasTag UL n \<and> \<not> hasTag OL n \<or> list_all (hasTag LI) ns"
  shows "listItemsOnly (replaceChild i ns n)"
proof (cases n)
  case (Text s)
  then show ?thesis by simp
next
  case (Element t cs)
  from assms Element show ?thesis
    by (auto simp: listTags_def list_all_take list_all_drop)
qed

lemma nestingOk_replaceAt:
  assumes ok: "nestingOk root" and el: "isElement root"
    and ne: "p \<noteq> []"
    and par: "getNode root (butlast p) = Some pn"
    and new: "list_all listItemsOnly ns"
    and inlist: "butlast p = [] \<or> \<not> hasTag UL pn \<and> \<not> hasTag OL pn \<or> list_all (hasTag LI) ns"
    and top: "butlast p = [] \<longrightarrow> list_all (\<lambda>c. \<not> isInline c) ns"
  shows "nestingOk (replaceAt p ns root)"
proof -
  from el obtain t cs where root: "root = Element t cs" by (cases root) auto
  show ?thesis
  proof (cases "butlast p")
    case Nil
    have "list_all (\<lambda>c. \<not> isInline c \<and> listItemsOnly c) ns"
      using new top Nil by (auto simp: list_all_iff)
    with ok root Nil ne show ?thesis
      by (auto simp: nestingOk_def replaceAt_def list_all_take list_all_drop)
  next
    case (Cons j q)
    show ?thesis
    proof (cases "j < length cs")
      case False
      with ok root Cons ne show ?thesis by (simp add: nestingOk_def replaceAt_def)
    next
      case True
      from par Cons root True have sub: "getNode (cs ! j) q = Some pn" by simp
      from ok root True have okj: "listItemsOnly (cs ! j)" "\<not> isInline (cs ! j)"
        by (auto simp: nestingOk_def list_all_length)
      have okpn: "listItemsOnly pn" by (rule listItemsOnly_getNode[OF okj(1) sub])
      have rc: "listItemsOnly (replaceChild (last p) ns pn)"
        using inlist Cons by (intro listItemsOnly_replaceChild[OF okpn new]) auto
      have newj: "listItemsOnly (updateAt q (replaceChild (last p) ns) (cs ! j))"
        by (rule listItemsOnly_updateAt[where f = "replaceChild (last p) ns",
            OF okj(1) sub rc tagOf_replaceChild])
      have tagj: "tagOf (updateAt q (replaceChild (last p) ns) (cs ! j)) = tagOf (cs ! j)"
        by (rule tagOf_updateAt[where f = "replaceChild (last p) ns", OF sub tagOf_replaceChild])
      have "\<not> isInline (updateAt q (replaceChild (last p) ns) (cs ! j))"
        using okj(2) isInline_tagOf[OF tagj] by simp
      with newj ok root True Cons ne show ?thesis
        by (simp add: nestingOk_def replaceAt_def list_all_update)
    qed
  qed
qed

lemma getNode_prefix:
  assumes "getNode root p = Some m"
  shows "\<exists>m'. getNode root (take k p) = Some m'"
proof -
  from assms have "getNode root (take k p @ drop k p) = Some m" by simp
  then show ?thesis by (auto simp: getNode_append split: option.splits simp del: append_take_drop_id)
qed

lemma hasParentWithTag_None:
  "hasParentWithTag root p tg = None \<Longrightarrow> getNode root p = Some m \<Longrightarrow>
     take k p \<noteq> [] \<Longrightarrow> getNode root (take k p) = Some n \<Longrightarrow> \<not> hasTag tg n"
proof (induction root p tg arbitrary: m k rule: hasParentWithTag.induct)
  case (1 root p tg)
  from "1.prems"(3) have ne: "p \<noteq> []" by auto
  have nt: "\<not> hasTag tg m"
    using "1.prems"(1,2) ne by (subst (asm) hasParentWithTag.simps) (auto split: if_splits)
  then have up: "hasParentWithTag root (butlast p) tg = None"
    using "1.prems"(1,2) ne by (subst (asm) hasParentWithTag.simps) simp
  show ?case
  proof (cases "length p \<le> k")
    case True
    with "1.prems"(2,4) nt show ?thesis by simp
  next
    case False
    then have "min k (length p - 1) = k" by simp
    then have tk: "take k p = take k (butlast p)"
      by (simp add: butlast_conv_take)
    from getNode_prefix[OF "1.prems"(2), of "length p - 1"] obtain m' where
      m': "getNode root (butlast p) = Some m'" by (auto simp: butlast_conv_take)
    show ?thesis
      using "1.IH"[OF ne "1.prems"(2) nt up m', of k] "1.prems"(3,4) tk by simp
  qed
qed

lemma foldr_joinText_elements_only:
  "list_all isElement ys \<Longrightarrow> foldr joinText ys [] = ys"
proof (induction ys)
  case Nil
  then show ?case by simp
next
  case (Cons y ys)
  then show ?case by (cases y) simp_all
qed

lemma tagOf_reparseNode: "tagOf (reparseNode n) = tagOf n"
  by (cases n) simp_all

lemma listItemsOnly_reparseNode: "listItemsOnly n \<Longrightarrow> listItemsOnly (reparseNode n)"
proof (induction n rule: reparseNode.induct)
  case (1 s)
  then show ?case by simp
next
  case (2 t cs)
  let ?ys = "map reparseNode cs"
  have each: "list_all listItemsOnly ?ys"
    using 2 by (auto simp: list_all_iff)
  have all: "list_all listItemsOnly (foldr joinText ?ys [])"
    unfolding list_all_iff
  proof
    fix z assume z: "z \<in> set (foldr joinText ?ys [])"
    show "listItemsOnly z"
    proof (cases z)
      case (Text s)
      then show ?thesis by simp
    next
      case (Element t' cs')
      with z have "z \<in> set ?ys" using foldr_joinText_elements[of z ?ys] by simp
      with each show ?thesis unfolding list_all_iff by blast
    qed
  qed
  have items: "list_all (hasTag LI) (foldr joinText ?ys [])" if "list_all (hasTag LI) cs"
  proof -
    from that have li: "list_all (hasTag LI) ?ys"
      by (auto simp: list_all_iff hasTag_tagOf tagOf_reparseNode)
    then have "list_all isElement ?ys"
      by (auto simp: list_all_iff hasTag_tagOf) (metis isElement.elims(3) option.distinct(1) tagOf.simps(1))
    with li show ?thesis by (simp add: foldr_joinText_elements_only)
  qed
  from "2.prems" all items show ?case by auto
qed

lemma listItemsOnly_reparse:
  "list_all listItemsOnly cs \<Longrightarrow> list_all listItemsOnly (reparse cs)"
  using listItemsOnly_reparseNode[of "Element P cs"]
  by (simp add: reparse_def listTags_def)

lemma nestingOk_getNode:
  assumes "nestingOk root" and "p \<noteq> []" and "getNode root p = Some n"
  shows "listItemsOnly n"
proof -
  from assms(2) obtain i q where p: "p = i # q" by (cases p) auto
  from assms(3) p obtain t cs where root: "root = Element t cs" by (cases root) auto
  with assms(3) p have i: "i < length cs" and sub: "getNode (cs ! i) q = Some n"
    by (auto split: if_splits)
  from assms(1) root i have "listItemsOnly (cs ! i)"
    by (simp add: nestingOk_def list_all_length)
  then show ?thesis by (rule listItemsOnly_getNode[OF _ sub])
qed

lemma listItemsOnly_children: "listItemsOnly n \<Longrightarrow> list_all listItemsOnly (childNodes n)"
  by (cases n) simp_all

lemma list_parent_has_items:
  assumes "listItemsOnly pn" and "hasTag UL pn \<or> hasTag OL pn"
    and "i < length (childNodes pn)"
  shows "hasTag LI (childNodes pn ! i)"
  using assms by (cases pn) (auto simp: listTags_def list_all_length)

lemma skipToElement_valid:
  "skipToElement root p = Some q \<Longrightarrow> \<exists>m. getNode root p = Some m"
  by (subst (asm) skipToElement.simps) (auto split: option.splits)

lemma findParentBlock_valid:
  "findParentBlock root p = Some q \<Longrightarrow> \<exists>m. getNode root p = Some m"
  by (auto simp: findParentBlock_def split: option.splits dest: skipToElement_valid)

lemma butlast_take_conv: "\<exists>k'. butlast (take k p) = take k' p"
proof
  show "butlast (take k p) = take (min (length (take k p) - 1) k) p"
    by (simp add: butlast_conv_take)
qed

lemma no_list_above:
  assumes none: "findExistingList root c = None"
    and valid: "getNode root c = Some m"
    and q: "take k c \<noteq> []" "getNode root (take k c) = Some n"
  shows "\<not> hasTag UL n \<and> \<not> hasTag OL n"
proof -
  from none have "hasParentWithTag root c UL = None" "hasParentWithTag root c OL = None"
    by (auto simp: findExistingList_def split: option.splits)
  then show ?thesis
    using hasParentWithTag_None[OF _ valid q] by blast
qed

lemma findExistingList_Some:
  assumes "findExistingList root c = Some pl"
  shows "pl \<noteq> [] \<and> (\<exists>n. getNode root pl = Some n \<and> (hasTag UL n \<or> hasTag OL n))"
proof (cases "hasParentWithTag root c UL")
  case None
  with assms have "hasParentWithTag root c OL = Some pl" by (simp add: findExistingList_def)
  from hasParentWithTag_Some[OF this] show ?thesis by blast
next
  case (Some q)
  with assms have "hasParentWithTag root c UL = Some pl" by (simp add: findExistingList_def)
  from hasParentWithTag_Some[OF this] show ?thesis by blast
qed

lemma block_on_block_keeps_structure:
  assumes ok: "nestingOk (noteBody ed)" and el: "isElement (noteBody ed)"
    and sel: "selection ed = Some r"
    and kind: "k \<in> {H1, H2, H3, BLOCKQUOTE}"
    and blk: "findParentBlock (noteBody ed) (commonAncestorContainer r) = Some pb"
    and node: "getNode (noteBody ed) pb = Some b"
    and noitem: "\<not> hasTag LI b"
    and parses: "list_all parsesBack (childNodes b)"
  shows "nestingOk (noteBody (applyBlockFormat parse k ed))"
proof -
  let ?root = "noteBody ed"
  let ?c = "commonAncestorContainer r"
  from findParentBlock_Some[OF blk] node have ne: "pb \<noteq> []" and bb: "isBlockElement b"
    by auto
  from bb obtain t cs where b: "b = Element t cs" by (cases b) auto
  from getNode_parent[OF ne node] obtain tp cp where
    par: "getNode ?root (butlast pb) = Some (Element tp cp)"
    and i: "last pb < length cp" and c: "cp ! last pb = b"
    by blast
  let ?new = "Element (if t = k then P else k) (reparse cs)"
  have res: "noteBody (applyBlockFormat parse k ed) = replaceAt pb [?new] ?root"
    using applyBlockFormat_on_block[OF sel blk node[unfolded b], of parse k] parses b
    by (simp add: copyInnerHTML_parsesBack)
  have okb: "listItemsOnly b" by (rule nestingOk_getNode[OF ok ne node])
  then have "list_all listItemsOnly (reparse cs)"
    using b by (simp add: listItemsOnly_reparse)
  then have new: "list_all listItemsOnly [?new]"
    using kind by (auto simp: listTags_def)
  have inlist: "butlast pb = [] \<or> \<not> hasTag UL (Element tp cp) \<and> \<not> hasTag OL (Element tp cp) \<or>
      list_all (hasTag LI) [?new]"
  proof (cases "butlast pb = []")
    case True
    then show ?thesis by simp
  next
    case False
    have "listItemsOnly (Element tp cp)" by (rule nestingOk_getNode[OF ok False par])
    with noitem i c list_parent_has_items[of "Element tp cp" "last pb"]
    show ?thesis by auto
  qed
  have top: "butlast pb = [] \<longrightarrow> list_all (\<lambda>c. \<not> isInline c) [?new]"
    using kind by (auto simp: styleTags_def)
  show ?thesis
    unfolding res by (rule nestingOk_replaceAt[OF ok el ne par new inlist top])
qed

lemma list_on_block_keeps_structure:
  assumes ok: "nestingOk (noteBody ed)" and el: "isElement (noteBody ed)"
    and sel: "selection ed = Some r"
    and kind: "listType \<in> {UL, OL}"
    and none: "findExistingList (noteBody ed) (commonAncestorContainer r) = None"
    and blk: "findParentBlock (noteBody ed) (commonAncestorContainer r) = Some pb"
    and parses: "childrenParseBack (noteBody ed) pb"
  shows "nestingOk (noteBody (toggleList parse listType ed))"
proof -
  let ?root = "noteBody ed"
  let ?c = "commonAncestorContainer r"
  from findParentBlock_Some[OF blk] obtain b k where ne: "pb \<noteq> []"
    and node: "getNode ?root pb = Some b" and bb: "isBlockElement b" and pk: "pb = take k ?c"
    by blast
  from findParentBlock_valid[OF blk] obtain m where valid: "getNode ?root ?c = Some m" ..
  from getNode_parent[OF ne node] obtain tp cp where
    par: "getNode ?root (butlast pb) = Some (Element tp cp)"
    by blast
  let ?new = "Element listType [Element LI (reparse (childNodes b))]"
  have res: "noteBody (toggleList parse listType ed) = replaceAt pb [?new] ?root"
    using sel none blk node bb parses
    by (simp add: toggleList_def Let_def childrenParseBack_def copyInnerHTML_parsesBack)
  have okb: "listItemsOnly b" by (rule nestingOk_getNode[OF ok ne node])
  then have "list_all listItemsOnly (reparse (childNodes b))"
    by (simp add: listItemsOnly_reparse listItemsOnly_children)
  then have new: "list_all listItemsOnly [?new]"
    by (simp add: listTags_def)
  have inlist: "butlast pb = [] \<or> \<not> hasTag UL (Element tp cp) \<and> \<not> hasTag OL (Element tp cp) \<or>
      list_all (hasTag LI) [?new]"
  proof (cases "butlast pb = []")
    case True
    then show ?thesis by simp
  next
    case False
    from butlast_take_conv[of k ?c] pk obtain k' where k': "butlast pb = take k' ?c" by auto
    from no_list_above[OF none valid, of k' "Element tp cp"] False par k'
    show ?thesis by simp
  qed
  have top: "butlast pb = [] \<longrightarrow> list_all (\<lambda>c. \<not> isInline c) [?new]"
    using kind by (auto simp: styleTags_def)
  show ?thesis
    unfolding res by (rule nestingOk_replaceAt[OF ok el ne par new inlist top])
qed

lemma list_off_keeps_structure:
  assumes ok: "nestingOk (noteBody ed)" and el: "isElement (noteBody ed)"
    and sel: "selection ed = Some r"
    and lst: "findExistingList (noteBody ed) (commonAncestorContainer r) = Some pl"
    and node: "getNode (noteBody ed) pl = Some existingList"
    and cases: "(case hasParentWithTag (noteBody ed) (commonAncestorContainer r) LI of
         None \<Rightarrow> True
       | Some pli \<Rightarrow> childElementCount existingList = 1 \<and> childrenParseBack (noteBody ed) pli)"
  shows "nestingOk (noteBody (toggleList parse listType ed))"
proof -
  let ?root = "noteBody ed"
  let ?c = "commonAncestorContainer r"
  show ?thesis
  proof (cases "hasParentWithTag ?root ?c LI")
    case None
    with sel lst have "toggleList parse listType ed = ed" by (simp add: toggleList_def Let_def)
    with ok show ?thesis by simp
  next
    case (Some pli)
    with cases have one: "childElementCount existingList = 1"
      and parses: "childrenParseBack ?root pli" by simp_all
    from hasParentWithTag_Some[OF Some] obtain li where
      pne: "pli \<noteq> []" and li: "getNode ?root pli = Some li" by blast
    from findExistingList_Some[OF lst] node have ne: "pl \<noteq> []"
      and islist: "hasTag UL existingList \<or> hasTag OL existingList" by auto
    from getNode_parent[OF ne node] obtain tp cp where
      par: "getNode ?root (butlast pl) = Some (Element tp cp)"
      and i: "last pl < length cp" and c: "cp ! last pl = existingList"
      by blast
    let ?new = "Element P (reparse (childNodes li))"
    have res: "noteBody (toggleList parse listType ed) = replaceAt pl [?new] ?root"
      using sel lst Some node li one parses
      by (simp add: toggleList_def Let_def childrenParseBack_def copyInnerHTML_parsesBack)
    have "listItemsOnly li" by (rule nestingOk_getNode[OF ok pne li])
    then have "list_all listItemsOnly (reparse (childNodes li))"
      by (simp add: listItemsOnly_reparse listItemsOnly_children)
    then have new: "list_all listItemsOnly [?new]"
      by (simp add: listTags_def)
    have inlist: "butlast pl = [] \<or> \<not> hasTag UL (Element tp cp) \<and> \<not> hasTag OL (Element tp cp) \<or>
        list_all (hasTag LI) [?new]"
    proof (cases "butlast pl = []")
      case True
      then show ?thesis by simp
    next
      case False
      have okp: "listItemsOnly (Element tp cp)" by (rule nestingOk_getNode[OF ok False par])
      have "\<not> hasTag LI existingList" using islist by (cases existingList) auto
      with okp i c list_parent_has_items[of "Element tp cp" "last pl"]
      show ?thesis by auto
    qed
    have top: "butlast pl = [] \<longrightarrow> list_all (\<lambda>c. \<not> isInline c) [?new]"
      by (simp add: styleTags_def)
    show ?thesis
      unfolding res by (rule nestingOk_replaceAt[OF ok el ne par new inlist top])
  qed
qed

subsection \<open>Extraction and the common ancestor container\<close>

lemma textContent_splitNode:
  "validBoundary n p off \<Longrightarrow>
     textContent (fst (splitNode n p off)) @ textContent (snd (splitNode n p off)) = textContent n"
proof (induction p arbitrary: n)
  case Nil
  then show ?case
    by (cases n) (simp_all add: validBoundary_def flip: map_append concat_append)
next
  case (Cons i p)
  show ?case
  proof (cases n)
    case (Text s)
    then show ?thesis by simp
  next
    case (Element t cs)
    with Cons.prems have i: "i < length cs" and sub: "validBoundary (cs ! i) p off"
      by (auto simp: validBoundary_def split: if_splits)
    from Cons.IH[OF sub] have "textContent (fst (splitNode (cs ! i) p off)) @
        textContent (snd (splitNode (cs ! i) p off)) = textContent (cs ! i)" .
    moreover have "concat (map textContent cs) =
        concat (map textContent (take i cs)) @ textContent (cs ! i) @
        concat (map textContent (drop (Suc i) cs))"
      using i by (subst id_take_nth_drop[OF i]) simp
    ultimately show ?thesis
      using Element by (simp add: case_prod_unfold)
  qed
qed

lemma take_middle_drop:
  "a \<le> b \<Longrightarrow> take (b - a) (drop a cs) @ drop b cs = drop a cs"
proof -
  assume "a \<le> b"
  then have "drop b cs = drop (b - a) (drop a cs)" by simp
  then show ?thesis by (simp only: append_take_drop_id)
qed

lemma extractIn_element_shape:
  "\<exists>frag cs' off. extractIn (Element t cs) sp so ep eo = (frag, Element t cs', off)"
  by (cases sp; cases ep) (auto split: prod.splits)

lemma respliced_inside:
  assumes "so \<le> eo" and "eo \<le> length cs"
  shows "respliced (extractIn (Element t cs) [] so [] eo) = cs"
proof -
  from assms have "take so cs @ take (eo - so) (drop so cs) @ drop eo cs = cs"
    by (simp add: take_middle_drop)
  with assms show ?thesis by (simp add: respliced_def min_def)
qed

lemma respliced_start_below:
  assumes "i < eo" and "eo \<le> length cs"
  shows "respliced (extractIn (Element t cs) (i # sp) so [] eo) = splitChild cs i sp so"
proof -
  obtain l r where lr: "splitNode (cs ! i) sp so = (l, r)" by (cases "splitNode (cs ! i) sp so")
  from assms have "take (eo - Suc i) (drop (Suc i) cs) @ drop eo cs = drop (Suc i) cs"
    by (simp add: take_middle_drop)
  with assms lr show ?thesis by (simp add: respliced_def splitChild_def min_def)
qed

lemma respliced_end_below:
  assumes "so \<le> j" and "j < length cs"
  shows "respliced (extractIn (Element t cs) [] so (j # ep) eo) = splitChild cs j ep eo"
proof -
  obtain l r where lr: "splitNode (cs ! j) ep eo = (l, r)" by (cases "splitNode (cs ! j) ep eo")
  from assms have "take so cs @ take (j - so) (drop so cs) = take j cs"
    by (metis le_add_diff_inverse take_add)
  with assms lr show ?thesis by (simp add: respliced_def splitChild_def min_def)
qed

lemma respliced_both_below:
  assumes "i < j" and "j < length cs"
  shows "respliced (extractIn (Element t cs) (i # sp) so (j # ep) eo) =
           splitChild (splitChild cs j ep eo) i sp so"
proof -
  obtain l1 r1 where lr1: "splitNode (cs ! i) sp so = (l1, r1)"
    by (cases "splitNode (cs ! i) sp so")
  obtain l2 r2 where lr2: "splitNode (cs ! j) ep eo = (l2, r2)"
    by (cases "splitNode (cs ! j) ep eo")
  let ?cs2 = "take j cs @ [l2, r2] @ drop (Suc j) cs"
  from assms have nth: "?cs2 ! i = cs ! i" by (simp add: nth_append)
  from assms have tk: "take i ?cs2 = take i cs" by (simp add: min_def)
  from assms have dr: "drop (Suc i) ?cs2 =
      take (j - Suc i) (drop (Suc i) cs) @ [l2, r2] @ drop (Suc j) cs"
    by (simp add: drop_take)
  from assms lr1 lr2 show ?thesis
    by (simp add: respliced_def splitChild_def nth_append min_def drop_take)
qed

lemma textContent_splitChild:
  assumes "i < length cs" and "validBoundary (cs ! i) p off"
  shows "concat (map textContent (splitChild cs i p off)) = concat (map textContent cs)"
proof -
  obtain l r where lr: "splitNode (cs ! i) p off = (l, r)" by (cases "splitNode (cs ! i) p off")
  with textContent_splitNode[OF assms(2)] have "textContent l @ textContent r = textContent (cs ! i)"
    by simp
  then have "concat (map textContent (take i cs @ [l, r] @ drop (Suc i) cs)) =
      concat (map textContent (take i cs @ cs ! i # drop (Suc i) cs))"
    by simp
  with lr show ?thesis
    by (simp only: splitChild_def prod.case id_take_nth_drop[OF assms(1), symmetric])
qed

lemma commonPrefix_left: "commonPrefix p q @ drop (length (commonPrefix p q)) p = p"
  by (induction p q rule: commonPrefix.induct) simp_all

lemma commonPrefix_right: "commonPrefix p q @ drop (length (commonPrefix p q)) q = q"
  by (induction p q rule: commonPrefix.induct) simp_all

lemma commonPrefix_diverges:
  "drop (length (commonPrefix p q)) p = [] \<or> drop (length (commonPrefix p q)) q = [] \<or>
   hd (drop (length (commonPrefix p q)) p) \<noteq> hd (drop (length (commonPrefix p q)) q)"
  by (induction p q rule: commonPrefix.induct) simp_all

lemma boundaryLe_append: "boundaryLe (c @ sp) so (c @ ep) eo = boundaryLe sp so ep eo"
  by (induction c) simp_all

text \<open>What a valid range says about its common ancestor container.\<close>

lemma validRange_decompose:
  assumes "validRange root r"
  defines "c \<equiv> commonAncestorContainer r"
  defines "sp \<equiv> drop (length c) (startContainer r)"
  defines "ep \<equiv> drop (length c) (endContainer r)"
  shows "\<exists>n. getNode root c = Some n \<and>
           validBoundary n sp (startOffset r) \<and> validBoundary n ep (endOffset r) \<and>
           boundaryLe sp (startOffset r) ep (endOffset r) \<and>
           (sp = [] \<or> ep = [] \<or> hd sp \<noteq> hd ep) \<and>
           startContainer r = c @ sp \<and> endContainer r = c @ ep"
proof -
  have s: "startContainer r = c @ sp" and e: "endContainer r = c @ ep"
    unfolding c_def sp_def ep_def commonAncestorContainer_def
    by (simp_all add: commonPrefix_left commonPrefix_right)
  have d: "sp = [] \<or> ep = [] \<or> hd sp \<noteq> hd ep"
    unfolding c_def sp_def ep_def commonAncestorContainer_def
    by (rule commonPrefix_diverges)
  from assms(1) have vs: "validBoundary root (c @ sp) (startOffset r)"
    and ve: "validBoundary root (c @ ep) (endOffset r)"
    and le: "boundaryLe (c @ sp) (startOffset r) (c @ ep) (endOffset r)"
    by (simp_all add: validRange_def s[symmetric] e[symmetric])
  from vs obtain n where n: "getNode root c = Some n"
    by (auto simp: validBoundary_def getNode_append split: option.splits)
  with vs ve have "validBoundary n sp (startOffset r)" "validBoundary n ep (endOffset r)"
    by (simp_all add: validBoundary_def getNode_append)
  with n le d s e show ?thesis by (simp add: boundaryLe_append)
qed

lemma updateAt_append: "updateAt (p @ q) f n = updateAt p (updateAt q f) n"
proof (induction p arbitrary: n)
  case Nil
  then show ?case by simp
next
  case (Cons i p)
  then show ?case by (cases n) simp_all
qed

lemma updateAt_cong_node:
  "getNode root p = Some n \<Longrightarrow> f n = g n \<Longrightarrow> updateAt p f root = updateAt p g root"
proof (induction p arbitrary: root)
  case Nil
  then show ?case by simp
next
  case (Cons i p)
  then show ?case by (cases root) (auto split: if_splits)
qed

lemma replaceAt_snoc: "replaceAt (p @ [i]) ns root = updateAt p (replaceChild i ns) root"
  by (simp add: replaceAt_def)

lemma replaceAt_after_updateAt:
  assumes "p \<noteq> []" and "getNode root p = Some n"
  shows "replaceAt p ns (updateAt p f root) = replaceAt p ns root"
proof -
  from getNode_parent[OF assms] obtain t cs where
    par: "getNode root (butlast p) = Some (Element t cs)" and i: "last p < length cs"
    by blast
  have "updateAt p f root = updateAt (butlast p) (updateAt [last p] f) root"
    using assms(1) updateAt_append[of "butlast p" "[last p]" f root] by simp
  then have "replaceAt p ns (updateAt p f root) =
      updateAt (butlast p) (replaceChild (last p) ns \<circ> updateAt [last p] f) root"
    using assms(1) by (simp add: replaceAt_def updateAt_updateAt)
  also have "\<dots> = updateAt (butlast p) (replaceChild (last p) ns) root"
    using i by (intro updateAt_cong_node[OF par]) simp
  finally show ?thesis using assms(1) by (simp add: replaceAt_def)
qed

lemma wrap_choice:
  "(case surroundContents root r k of Some res \<Rightarrow> res | None \<Rightarrow> extractAndWrap root r k) =
     extractAndWrap root r k"
  by (simp add: surroundContents_def extractAndWrap_def split: prod.splits)

lemma applyInlineStyle_wraps:
  assumes "selection ed = Some r" and "\<not> isRangeEmpty r"
    and "styleToRemove k (noteBody ed) r = None"
    and "extractAndWrap (noteBody ed) r k = (root', wrapper)"
    and "getNode root' wrapper = Some w"
  shows "applyInlineStyle k ed =
           \<lparr>noteBody = root', selection = Some (selectNodeContents wrapper (nodeLength w))\<rparr>"
  using assms by (simp add: applyInlineStyle_def Let_def wrap_choice)

lemma extractAndWrap_element:
  assumes ne: "\<not> isRangeEmpty r"
    and ca: "getNode root (commonAncestorContainer r) = Some (Element t cs)"
    and ex: "extractIn (Element t cs)
        (drop (length (commonAncestorContainer r)) (startContainer r)) (startOffset r)
        (drop (length (commonAncestorContainer r)) (endContainer r)) (endOffset r) =
        (frag, Element t cs', off)"
  shows "extractAndWrap root r k =
           (updateAt (commonAncestorContainer r)
              (\<lambda>_. Element t (take off cs' @ [Element k frag] @ drop off cs')) root,
            commonAncestorContainer r @ [off])"
proof -
  let ?c = "commonAncestorContainer r"
  have "getNode (updateAt ?c (\<lambda>_. Element t cs') root) ?c = Some (Element t cs')"
    by (rule getNode_updateAt_same[OF ca])
  then show ?thesis
    using ne ca ex
    by (simp add: extractAndWrap_def extractContents_def insertNode_def collapsedAt_def
        updateAt_updateAt comp_def Let_def)
qed

lemma extractAndWrap_text:
  assumes ne: "\<not> isRangeEmpty r"
    and ca: "getNode root (commonAncestorContainer r) = Some (Text s)"
    and cne: "commonAncestorContainer r \<noteq> []"
    and so: "startOffset r \<le> endOffset r" "endOffset r \<le> length s"
  shows "extractAndWrap root r k =
           (replaceAt (commonAncestorContainer r)
              [Text (take (startOffset r) s),
               Element k [Text (take (endOffset r - startOffset r) (drop (startOffset r) s))],
               Text (drop (endOffset r) s)] root,
            butlast (commonAncestorContainer r) @ [Suc (last (commonAncestorContainer r))])"
proof -
  let ?c = "commonAncestorContainer r"
  let ?s' = "take (startOffset r) s @ drop (endOffset r) s"
  have g: "getNode (updateAt ?c (\<lambda>_. Text ?s') root) ?c = Some (Text ?s')"
    by (rule getNode_updateAt_same[OF ca])
  from so have tk: "take (startOffset r) ?s' = take (startOffset r) s"
    and dr: "drop (startOffset r) ?s' = drop (endOffset r) s"
    by (simp_all add: min_def)
  have "extractContents root r =
      ([Text (take (endOffset r - startOffset r) (drop (startOffset r) s))],
       updateAt ?c (\<lambda>_. Text ?s') root, collapsedAt ?c (startOffset r))"
    using ne ca by (simp add: extractContents_def Let_def)
  then show ?thesis
    using g cne
    by (simp add: extractAndWrap_def insertNode_def collapsedAt_def
        replaceAt_after_updateAt[OF cne ca] tk dr del: take_append drop_append)
qed

lemma applyInlineStyle_unwraps_fresh:
  assumes w: "getNode root1 pw = Some (Element k frag)" and pne: "pw \<noteq> []"
    and fne: "frag \<noteq> []"
  shows "noteBody (applyInlineStyle k
           \<lparr>noteBody = root1, selection = Some (selectNodeContents pw (length frag))\<rparr>) =
         replaceAt pw frag root1"
proof -
  let ?r = "selectNodeContents pw (length frag)"
  have ne: "\<not> isRangeEmpty ?r"
    using fne by (simp add: isRangeEmpty_def selectNodeContents_def)
  have ca: "commonAncestorContainer ?r = pw"
    by (simp add: commonAncestorContainer_def selectNodeContents_def commonPrefix_same)
  have found: "hasParentWithTag root1 pw k = Some pw"
    using w pne by (subst hasParentWithTag.simps) simp
  have str: "rangeToString root1 ?r = textContent (Element k frag)"
    using ne w ca
    by (simp add: rangeToString_def extractContents_def)
       (simp add: selectNodeContents_def)
  have rm: "styleToRemove k root1 ?r = Some pw"
    using found w str by (simp add: styleToRemove_def ca)
  from getNode_parent[OF pne w] obtain t cs where
    par: "getNode root1 (butlast pw) = Some (Element t cs)" and i: "last pw < length cs"
    by blast
  have par': "getNode (unwrapElement root1 pw) (butlast pw) =
      Some (Element t (take (last pw) cs @ frag @ drop (Suc (last pw)) cs))"
    using getNode_replaceAt_parent[OF pne par i, of frag] w by (simp add: unwrapElement_def)
  show ?thesis
    using ne rm w par'
    by (simp add: applyInlineStyle_def Let_def unwrapElement_def split: option.splits)
qed

lemma reparseNode_updateAt:
  "getNode root p = Some n \<Longrightarrow> reparseNode (f n) = reparseNode n \<Longrightarrow>
     reparseNode (updateAt p f root) = reparseNode root"
proof (induction p arbitrary: root)
  case Nil
  then show ?case by simp
next
  case (Cons i p)
  show ?case
  proof (cases root)
    case (Text s)
    then show ?thesis by simp
  next
    case (Element t cs)
    with Cons.prems have i: "i < length cs" and sub: "getNode (cs ! i) p = Some n"
      by (auto split: if_splits)
    from Cons.IH[OF sub Cons.prems(2)]
    have "map reparseNode (cs[i := updateAt p f (cs ! i)]) = map reparseNode cs"
      by (simp add: map_update list_update_same_conv i)
    with Element i show ?thesis by simp
  qed
qed

lemma textContent_updateAt:
  "getNode root p = Some n \<Longrightarrow> textContent (f n) = textContent n \<Longrightarrow>
     textContent (updateAt p f root) = textContent root"
proof (induction p arbitrary: root)
  case Nil
  then show ?case by simp
next
  case (Cons i p)
  show ?case
  proof (cases root)
    case (Text s)
    then show ?thesis by simp
  next
    case (Element t cs)
    with Cons.prems have i: "i < length cs" and sub: "getNode (cs ! i) p = Some n"
      by (auto split: if_splits)
    from Cons.IH[OF sub Cons.prems(2)]
    have "map textContent (cs[i := updateAt p f (cs ! i)]) = map textContent cs"
      by (simp add: map_update list_update_same_conv i)
    with Element i show ?thesis by simp
  qed
qed

lemma joinText_split:
  "joinText (Text a) (joinText (Text b) z) = joinText (Text (a @ b)) z"
  by (cases z) (auto split: node.splits)

lemma reparse_two_texts:
  "foldr joinText (map reparseNode (xs @ [Text a, Text b] @ ys)) [] =
     foldr joinText (map reparseNode (xs @ [Text (a @ b)] @ ys)) []"
proof -
  have "foldr joinText (map reparseNode ([Text a, Text b] @ ys)) [] =
      foldr joinText (map reparseNode ([Text (a @ b)] @ ys)) []"
    by (simp add: joinText_split del: joinText.simps)
  then show ?thesis by (simp only: map_append foldr_append)
qed

lemma reparse_splitChild_text:
  assumes "i < length cs" and "cs ! i = Text s"
  shows "foldr joinText (map reparseNode (splitChild cs i p off)) [] =
           foldr joinText (map reparseNode cs) []"
proof -
  have "foldr joinText (map reparseNode (take i cs @ [Text (take off s), Text (drop off s)] @
          drop (Suc i) cs)) [] =
        foldr joinText (map reparseNode (take i cs @ [Text s] @ drop (Suc i) cs)) []"
    using reparse_two_texts[of "take i cs" "take off s" "drop off s" "drop (Suc i) cs"]
    by simp
  also have "take i cs @ [Text s] @ drop (Suc i) cs = cs"
    using assms id_take_nth_drop[OF assms(1)] by simp
  finally show ?thesis using assms by (simp add: splitChild_def)
qed

lemma extractIn_offsets:
  assumes le: "boundaryLe sp so ep eo"
    and vs: "validBoundary (Element t cs) sp so"
    and ve: "validBoundary (Element t cs) ep eo"
    and dv: "sp = [] \<or> ep = [] \<or> hd sp \<noteq> hd ep"
    and ne: "\<not> (sp = [] \<and> ep = [] \<and> so = eo)"
    and ex: "extractIn (Element t cs) sp so ep eo = (frag, Element t cs', off)"
  shows "off \<le> length cs' \<and> frag \<noteq> []"
proof (cases sp)
  case Nil
  note sp = Nil
  show ?thesis
  proof (cases ep)
    case Nil
    with sp le ve ne have "so < eo" "eo \<le> length cs" by (auto simp: validBoundary_def)
    with sp Nil ex show ?thesis by auto
  next
    case (Cons j ep')
    with sp le ve have "so \<le> j" "j < length cs" by (auto simp: validBoundary_def split: if_splits)
    with sp Cons ex show ?thesis by (auto split: prod.splits)
  qed
next
  case (Cons i sp')
  with vs have i: "i < length cs" by (auto simp: validBoundary_def split: if_splits)
  show ?thesis
  proof (cases ep)
    case Nil
    with Cons ex i show ?thesis by (auto split: prod.splits)
  next
    case ep: (Cons j ep')
    with Cons ex i show ?thesis by (auto split: prod.splits)
  qed
qed

lemma respliced_text_kept:
  assumes le: "boundaryLe sp so ep eo"
    and vs: "validBoundary (Element t cs) sp so"
    and ve: "validBoundary (Element t cs) ep eo"
    and dv: "sp = [] \<or> ep = [] \<or> hd sp \<noteq> hd ep"
  shows "concat (map textContent (respliced (extractIn (Element t cs) sp so ep eo))) =
           concat (map textContent cs)"
proof (cases sp)
  case Nil
  note sp = Nil
  show ?thesis
  proof (cases ep)
    case Nil
    with sp le ve have "so \<le> eo" "eo \<le> length cs" by (auto simp: validBoundary_def)
    with sp Nil show ?thesis by (simp add: respliced_inside del: extractIn.simps)
  next
    case (Cons j ep')
    with sp le ve have "so \<le> j" "j < length cs" "validBoundary (cs ! j) ep' eo"
      by (auto simp: validBoundary_def split: if_splits)
    with sp Cons show ?thesis by (simp add: respliced_end_below textContent_splitChild del: extractIn.simps)
  qed
next
  case (Cons i sp')
  with vs have i: "i < length cs" and si: "validBoundary (cs ! i) sp' so"
    by (auto simp: validBoundary_def split: if_splits)
  show ?thesis
  proof (cases ep)
    case Nil
    with Cons le ve have "i < eo" "eo \<le> length cs" by (auto simp: validBoundary_def)
    with Cons Nil i si show ?thesis by (simp add: respliced_start_below textContent_splitChild del: extractIn.simps)
  next
    case ep: (Cons j ep')
    with Cons le ve dv have ij: "i < j" and j: "j < length cs"
      and sj: "validBoundary (cs ! j) ep' eo"
      by (auto simp: validBoundary_def split: if_splits)
    let ?cs2 = "splitChild cs j ep' eo"
    have len: "i < length ?cs2" using ij j by (simp add: splitChild_def split: prod.splits)
    have nth: "?cs2 ! i = cs ! i" using ij j
      by (simp add: splitChild_def nth_append split: prod.splits)
    from Cons ep ij j show ?thesis
      using textContent_splitChild[OF len, of sp' so] si nth
        textContent_splitChild[OF j sj]
      by (simp add: respliced_both_below del: extractIn.simps)
  qed
qed

lemma flat_boundary:
  assumes "validBoundary (Element t cs) p off" and "\<not> elementBelow (Element t cs) p"
  shows "p = [] \<or> (\<exists>i s. p = [i] \<and> i < length cs \<and> cs ! i = Text s)"
proof (cases p)
  case Nil
  then show ?thesis by simp
next
  case (Cons i q)
  with assms(1) have i: "i < length cs" and sub: "getNode (cs ! i) q \<noteq> None"
    by (auto simp: validBoundary_def split: if_splits option.splits)
  from assms(2) Cons i obtain s where s: "cs ! i = Text s"
    by (cases "cs ! i") auto
  with sub have "q = []" by (cases q) auto
  with Cons i s show ?thesis by simp
qed

lemma respliced_reparse_kept:
  assumes le: "boundaryLe sp so ep eo"
    and vs: "validBoundary (Element t cs) sp so"
    and ve: "validBoundary (Element t cs) ep eo"
    and dv: "sp = [] \<or> ep = [] \<or> hd sp \<noteq> hd ep"
    and fs: "\<not> elementBelow (Element t cs) sp"
    and fe: "\<not> elementBelow (Element t cs) ep"
  shows "foldr joinText (map reparseNode (respliced (extractIn (Element t cs) sp so ep eo))) [] =
           foldr joinText (map reparseNode cs) []"
proof -
  from flat_boundary[OF vs fs] flat_boundary[OF ve fe]
  consider (inside) "sp = []" "ep = []"
    | (start) i s where "sp = [i]" "i < length cs" "cs ! i = Text s" "ep = []"
    | (ending) j s where "sp = []" "ep = [j]" "j < length cs" "cs ! j = Text s"
    | (both) i s j s' where "sp = [i]" "i < length cs" "cs ! i = Text s"
        "ep = [j]" "j < length cs" "cs ! j = Text s'"
    by blast
  then show ?thesis
  proof cases
    case inside
    with le ve have "so \<le> eo" "eo \<le> length cs" by (auto simp: validBoundary_def)
    with inside show ?thesis by (simp add: respliced_inside del: extractIn.simps)
  next
    case start
    with le ve have "i < eo" "eo \<le> length cs" by (auto simp: validBoundary_def)
    with start show ?thesis by (simp add: respliced_start_below reparse_splitChild_text del: extractIn.simps)
  next
    case ending
    with le have "so \<le> j" by simp
    with ending show ?thesis by (simp add: respliced_end_below reparse_splitChild_text del: extractIn.simps)
  next
    case both
    with le dv have ij: "i < j" by (auto split: if_splits)
    let ?cs2 = "splitChild cs j [] eo"
    have len: "i < length ?cs2" using ij both by (simp add: splitChild_def split: prod.splits)
    have nth: "?cs2 ! i = Text s" using ij both
      by (simp add: splitChild_def nth_append split: prod.splits)
    from both ij show ?thesis
      using reparse_splitChild_text[OF len nth, of "[]" so]
        reparse_splitChild_text[OF both(5,6), of "[]" eo]
      by (simp add: respliced_both_below del: extractIn.simps)
  qed
qed

subsection \<open>Applying an inline style, and applying it twice\<close>

lemma relative_not_collapsed:
  assumes "\<not> isRangeEmpty r" and "startContainer r = c @ sp" and "endContainer r = c @ ep"
  shows "\<not> (sp = [] \<and> ep = [] \<and> startOffset r = endOffset r)"
  using assms by (auto simp: isRangeEmpty_def)

lemma wrap_in_element:
  assumes sel: "selection ed = Some r" and ne: "\<not> isRangeEmpty r"
    and keep: "styleToRemove k (noteBody ed) r = None"
    and valid: "validRange (noteBody ed) r"
    and ca: "getNode (noteBody ed) (commonAncestorContainer r) = Some (Element t cs)"
  shows "\<exists>frag cs' off.
           extractIn (Element t cs)
             (drop (length (commonAncestorContainer r)) (startContainer r)) (startOffset r)
             (drop (length (commonAncestorContainer r)) (endContainer r)) (endOffset r) =
             (frag, Element t cs', off) \<and>
           off \<le> length cs' \<and> frag \<noteq> [] \<and>
           applyInlineStyle k ed =
             \<lparr>noteBody = updateAt (commonAncestorContainer r)
                (\<lambda>_. Element t (take off cs' @ [Element k frag] @ drop off cs')) (noteBody ed),
              selection = Some (selectNodeContents (commonAncestorContainer r @ [off])
                (length frag))\<rparr> \<and>
           getNode (noteBody (applyInlineStyle k ed)) (commonAncestorContainer r @ [off]) =
             Some (Element k frag)"
proof -
  let ?c = "commonAncestorContainer r"
  let ?sp = "drop (length ?c) (startContainer r)"
  let ?ep = "drop (length ?c) (endContainer r)"
  from validRange_decompose[OF valid] ca have
    vs: "validBoundary (Element t cs) ?sp (startOffset r)"
    and ve: "validBoundary (Element t cs) ?ep (endOffset r)"
    and le: "boundaryLe ?sp (startOffset r) ?ep (endOffset r)"
    and dv: "?sp = [] \<or> ?ep = [] \<or> hd ?sp \<noteq> hd ?ep"
    and s: "startContainer r = ?c @ ?sp" and e: "endContainer r = ?c @ ?ep"
    by auto
  from extractIn_element_shape obtain frag cs' off where
    ex: "extractIn (Element t cs) ?sp (startOffset r) ?ep (endOffset r) = (frag, Element t cs', off)"
    by blast
  from extractIn_offsets[OF le vs ve dv relative_not_collapsed[OF ne s e] ex]
  have off: "off \<le> length cs'" and fne: "frag \<noteq> []" by auto
  let ?root1 = "updateAt ?c (\<lambda>_. Element t (take off cs' @ [Element k frag] @ drop off cs'))
      (noteBody ed)"
  have w: "getNode ?root1 (?c @ [off]) = Some (Element k frag)"
    using off by (simp add: getNode_append getNode_updateAt_same[OF ca] nth_append)
  have "applyInlineStyle k ed =
      \<lparr>noteBody = ?root1, selection = Some (selectNodeContents (?c @ [off]) (length frag))\<rparr>"
    using applyInlineStyle_wraps[OF sel ne keep extractAndWrap_element[OF ne ca ex] w] by simp
  with ex off fne w show ?thesis by auto
qed

lemma double_toggle_in_element:
  assumes sel: "selection ed = Some r" and ne: "\<not> isRangeEmpty r"
    and keep: "styleToRemove k (noteBody ed) r = None"
    and valid: "validRange (noteBody ed) r"
    and ca: "getNode (noteBody ed) (commonAncestorContainer r) = Some (Element t cs)"
  shows "noteBody (applyInlineStyle k (applyInlineStyle k ed)) =
           updateAt (commonAncestorContainer r)
             (\<lambda>_. Element t (respliced (extractIn (Element t cs)
                (drop (length (commonAncestorContainer r)) (startContainer r)) (startOffset r)
                (drop (length (commonAncestorContainer r)) (endContainer r)) (endOffset r))))
             (noteBody ed)"
proof -
  let ?c = "commonAncestorContainer r"
  from wrap_in_element[OF sel ne keep valid ca, of ] obtain frag cs' off where
    ex: "extractIn (Element t cs)
        (drop (length ?c) (startContainer r)) (startOffset r)
        (drop (length ?c) (endContainer r)) (endOffset r) = (frag, Element t cs', off)"
    and off: "off \<le> length cs'" and fne: "frag \<noteq> []"
    and once: "applyInlineStyle k ed =
        \<lparr>noteBody = updateAt ?c
           (\<lambda>_. Element t (take off cs' @ [Element k frag] @ drop off cs')) (noteBody ed),
         selection = Some (selectNodeContents (?c @ [off]) (length frag))\<rparr>"
    and w: "getNode (noteBody (applyInlineStyle k ed)) (?c @ [off]) = Some (Element k frag)"
    by blast
  let ?root1 = "updateAt ?c (\<lambda>_. Element t (take off cs' @ [Element k frag] @ drop off cs'))
      (noteBody ed)"
  from w once have w1: "getNode ?root1 (?c @ [off]) = Some (Element k frag)" by simp
  have "noteBody (applyInlineStyle k (applyInlineStyle k ed)) = replaceAt (?c @ [off]) frag ?root1"
    unfolding once by (rule applyInlineStyle_unwraps_fresh[OF w1 _ fne]) simp
  also have "\<dots> = updateAt ?c (replaceChild off frag \<circ>
      (\<lambda>_. Element t (take off cs' @ [Element k frag] @ drop off cs'))) (noteBody ed)"
    by (simp add: replaceAt_snoc updateAt_updateAt)
  also have "\<dots> = updateAt ?c (\<lambda>_. Element t (take off cs' @ frag @ drop off cs')) (noteBody ed)"
    using off by (intro updateAt_cong_node[OF ca]) (simp add: min_def)
  finally show ?thesis by (simp add: ex respliced_def)
qed

lemma text_range_offsets:
  assumes ne: "\<not> isRangeEmpty r" and valid: "validRange root r"
    and ca: "getNode root (commonAncestorContainer r) = Some (Text s)"
  shows "startOffset r < endOffset r \<and> endOffset r \<le> length s"
proof -
  let ?c = "commonAncestorContainer r"
  let ?sp = "drop (length ?c) (startContainer r)"
  let ?ep = "drop (length ?c) (endContainer r)"
  from validRange_decompose[OF valid] ca have
    vs: "validBoundary (Text s) ?sp (startOffset r)"
    and ve: "validBoundary (Text s) ?ep (endOffset r)"
    and le: "boundaryLe ?sp (startOffset r) ?ep (endOffset r)"
    and s: "startContainer r = ?c @ ?sp" and e: "endContainer r = ?c @ ?ep"
    by auto
  from vs have sp: "?sp = []" by (cases ?sp) (auto simp: validBoundary_def)
  from ve have ep: "?ep = []" by (cases ?ep) (auto simp: validBoundary_def)
  from relative_not_collapsed[OF ne s e] sp ep have "startOffset r \<noteq> endOffset r" by simp
  with le ve sp ep show ?thesis by (simp add: validBoundary_def)
qed

lemma wrap_in_text:
  assumes sel: "selection ed = Some r" and ne: "\<not> isRangeEmpty r"
    and keep: "styleToRemove k (noteBody ed) r = None"
    and valid: "validRange (noteBody ed) r" and el: "isElement (noteBody ed)"
    and ca: "getNode (noteBody ed) (commonAncestorContainer r) = Some (Text s)"
  shows "commonAncestorContainer r \<noteq> [] \<and>
         applyInlineStyle k ed =
           \<lparr>noteBody = replaceAt (commonAncestorContainer r)
              [Text (take (startOffset r) s),
               Element k [Text (take (endOffset r - startOffset r) (drop (startOffset r) s))],
               Text (drop (endOffset r) s)] (noteBody ed),
            selection = Some (selectNodeContents
              (butlast (commonAncestorContainer r) @ [Suc (last (commonAncestorContainer r))])
              1)\<rparr> \<and>
         getNode (noteBody (applyInlineStyle k ed))
           (butlast (commonAncestorContainer r) @ [Suc (last (commonAncestorContainer r))]) =
           Some (Element k [Text (take (endOffset r - startOffset r) (drop (startOffset r) s))])"
proof -
  let ?c = "commonAncestorContainer r"
  let ?w = "Element k [Text (take (endOffset r - startOffset r) (drop (startOffset r) s))]"
  let ?ns = "[Text (take (startOffset r) s), ?w, Text (drop (endOffset r) s)]"
  from el ca have cne: "?c \<noteq> []" by (cases "noteBody ed") auto
  from text_range_offsets[OF ne valid ca] have so: "startOffset r \<le> endOffset r"
    "endOffset r \<le> length s" by auto
  from getNode_parent[OF cne ca] obtain tp cp where
    par: "getNode (noteBody ed) (butlast ?c) = Some (Element tp cp)"
    and i: "last ?c < length cp" by blast
  have w: "getNode (replaceAt ?c ?ns (noteBody ed)) (butlast ?c @ [Suc (last ?c)]) = Some ?w"
    using getNode_replaceAt_parent[OF cne par i, of ?ns] i
    by (simp add: getNode_append nth_append)
  have "applyInlineStyle k ed =
      \<lparr>noteBody = replaceAt ?c ?ns (noteBody ed),
       selection = Some (selectNodeContents (butlast ?c @ [Suc (last ?c)]) 1)\<rparr>"
    using applyInlineStyle_wraps[OF sel ne keep extractAndWrap_text[OF ne ca cne so] w]
    by simp
  with cne w show ?thesis by simp
qed

lemma double_toggle_in_text:
  assumes sel: "selection ed = Some r" and ne: "\<not> isRangeEmpty r"
    and keep: "styleToRemove k (noteBody ed) r = None"
    and valid: "validRange (noteBody ed) r" and el: "isElement (noteBody ed)"
    and ca: "getNode (noteBody ed) (commonAncestorContainer r) = Some (Text s)"
  shows "noteBody (applyInlineStyle k (applyInlineStyle k ed)) =
           replaceAt (commonAncestorContainer r)
             [Text (take (startOffset r) s),
              Text (take (endOffset r - startOffset r) (drop (startOffset r) s)),
              Text (drop (endOffset r) s)] (noteBody ed)"
proof -
  let ?c = "commonAncestorContainer r"
  let ?m = "Text (take (endOffset r - startOffset r) (drop (startOffset r) s))"
  let ?ns = "[Text (take (startOffset r) s), Element k [?m], Text (drop (endOffset r) s)]"
  let ?pw = "butlast ?c @ [Suc (last ?c)]"
  from wrap_in_text[OF sel ne keep valid el ca] have cne: "?c \<noteq> []"
    and once: "applyInlineStyle k ed =
      \<lparr>noteBody = replaceAt ?c ?ns (noteBody ed),
       selection = Some (selectNodeContents ?pw 1)\<rparr>"
    and w: "getNode (noteBody (applyInlineStyle k ed)) ?pw = Some (Element k [?m])"
    by auto
  from w once have w1: "getNode (replaceAt ?c ?ns (noteBody ed)) ?pw = Some (Element k [?m])"
    by simp
  from getNode_parent[OF cne ca] obtain tp cp where
    par: "getNode (noteBody ed) (butlast ?c) = Some (Element tp cp)"
    and i: "last ?c < length cp" by blast
  have "noteBody (applyInlineStyle k (applyInlineStyle k ed)) =
      replaceAt ?pw [?m] (replaceAt ?c ?ns (noteBody ed))"
    unfolding once
    using applyInlineStyle_unwraps_fresh[OF w1, of ] by simp
  also have "\<dots> = updateAt (butlast ?c)
      (replaceChild (Suc (last ?c)) [?m] \<circ> replaceChild (last ?c) ?ns) (noteBody ed)"
    using cne by (simp add: replaceAt_def updateAt_updateAt)
  also have "\<dots> = updateAt (butlast ?c)
      (replaceChild (last ?c)
         [Text (take (startOffset r) s), ?m, Text (drop (endOffset r) s)]) (noteBody ed)"
    using i by (intro updateAt_cong_node[OF par]) (simp add: min_def)
  finally show ?thesis using cne by (simp add: replaceAt_def)
qed

lemma reparse_three_texts:
  assumes "i < length cp" and "cp ! i = Text s" and "a \<le> b" and "b \<le> length s"
  shows "reparseNode (replaceChild i
           [Text (take a s), Text (take (b - a) (drop a s)), Text (drop b s)] (Element tp cp)) =
         reparseNode (Element tp cp)"
proof -
  let ?xs = "take i cp" and ?ys = "drop (Suc i) cp"
  have "foldr joinText (map reparseNode
          (?xs @ [Text (take a s), Text (take (b - a) (drop a s))] @ ([Text (drop b s)] @ ?ys))) [] =
        foldr joinText (map reparseNode
          (?xs @ [Text (take a s @ take (b - a) (drop a s))] @ ([Text (drop b s)] @ ?ys))) []"
    by (rule reparse_two_texts)
  also have "take a s @ take (b - a) (drop a s) = take b s"
    using assms(3) by (metis le_add_diff_inverse take_add)
  also have "foldr joinText (map reparseNode (?xs @ [Text (take b s)] @ ([Text (drop b s)] @ ?ys))) [] =
      foldr joinText (map reparseNode (?xs @ [Text (take b s), Text (drop b s)] @ ?ys)) []"
    by simp
  also have "\<dots> = foldr joinText (map reparseNode (?xs @ [Text (take b s @ drop b s)] @ ?ys)) []"
    by (rule reparse_two_texts)
  also have "?xs @ [Text (take b s @ drop b s)] @ ?ys = cp"
    using assms(1,2) id_take_nth_drop[OF assms(1)] by simp
  finally show ?thesis using assms(1) by simp
qed

lemma replaceChild_single_then:
  "replaceChild i ns (replaceChild i [x] n) = replaceChild i ns n"
proof (cases n)
  case (Text s)
  then show ?thesis by simp
next
  case (Element t cs)
  show ?thesis
  proof (cases "i < length cs")
    case True
    then have "i < length (take i cs @ [x] @ drop (Suc i) cs)" by simp
    with True Element show ?thesis by (simp add: min_def)
  next
    case False
    with Element show ?thesis by simp
  qed
qed

lemma replaceAt_single_then:
  "replaceAt p ns (replaceAt p [x] root) = replaceAt p ns root"
proof -
  have "replaceChild (last p) ns \<circ> replaceChild (last p) [x] = replaceChild (last p) ns"
    by (rule ext) (simp add: replaceChild_single_then)
  then show ?thesis by (simp add: replaceAt_def updateAt_updateAt)
qed

lemma isElement_updateAt:
  "isElement root \<Longrightarrow> (\<And>n. isElement n \<Longrightarrow> isElement (f n)) \<Longrightarrow> isElement (updateAt p f root)"
  by (cases p; cases root) simp_all

lemma isElement_replaceAt: "isElement root \<Longrightarrow> isElement (replaceAt p ns root)"
proof -
  have "isElement (replaceChild i ns n)" if "isElement n" for i n
    using that by (cases n) simp_all
  then show "isElement root \<Longrightarrow> isElement (replaceAt p ns root)"
    by (simp add: replaceAt_def isElement_updateAt)
qed

lemma boundaryLe_same: "boundaryLe p a p b = (a \<le> b)"
  by (induction p) simp_all

text \<open>
  The editor state after the style is removed from an element whose only child is a
  text node that the code's search finds again.
\<close>

lemma unwrap_single_text:
  assumes sel: "selection ed = Some r" and ne: "\<not> isRangeEmpty r"
    and rm: "styleToRemove k (noteBody ed) r = Some pe"
    and par: "getNode (noteBody ed) (butlast pe) = Some parent"
    and node: "getNode (noteBody ed) pe = Some (Element t [Text s])"
    and first: "findTextChild (take (last pe) (childNodes parent)) s = None"
  shows "applyInlineStyle k ed =
           \<lparr>noteBody = replaceAt pe [Text s] (noteBody ed),
            selection = Some (selectNodeContents pe (length s))\<rparr>"
proof -
  let ?root = "noteBody ed"
  from styleToRemove_Some[OF rm] have pne: "pe \<noteq> []" by simp
  from getNode_parent[OF pne node] par obtain tp cp where
    parent: "parent = Element tp cp" and i: "last pe < length cp"
    by auto
  let ?cs' = "take (last pe) cp @ [Text s] @ drop (Suc (last pe)) cp"
  have par': "getNode (unwrapElement ?root pe) (butlast pe) = Some (Element tp ?cs')"
    using getNode_replaceAt_parent[OF pne par[unfolded parent] i, of "[Text s]"] node
    by (simp add: unwrapElement_def)
  from i have len: "length (take (last pe) cp) = last pe" by simp
  have "findTextChild ?cs' s = Some (last pe)"
    using findTextChild_append[OF first[unfolded parent childNodes.simps],
        of "Text s # drop (Suc (last pe)) cp"] len
    by simp
  with sel ne rm node par' pne show ?thesis
    by (simp add: applyInlineStyle_def Let_def unwrapElement_def)
qed

lemma reparse_empty_texts_around:
  assumes "i < length cp"
  shows "reparseNode (replaceChild i [Text [], cp ! i, Text []] (Element tp cp)) =
         reparseNode (Element tp cp)"
proof -
  let ?xs = "take i cp" and ?ys = "drop (Suc i) cp"
  have "foldr joinText (map reparseNode (?xs @ [Text [], cp ! i, Text []] @ ?ys)) [] =
      foldr joinText (map reparseNode (?xs @ [cp ! i] @ ?ys)) []"
    by simp
  also have "?xs @ [cp ! i] @ ?ys = cp"
    using id_take_nth_drop[OF assms] by simp
  finally show ?thesis using assms by simp
qed

lemma double_toggle_frees_text:
  assumes el: "isElement (noteBody ed)"
    and sel: "selection ed = Some r" and ne: "\<not> isRangeEmpty r"
    and frees: "freesOneText k (noteBody ed) r"
  shows "reparseNode (noteBody (applyInlineStyle k (applyInlineStyle k ed))) =
           reparseNode (noteBody ed)"
proof -
  let ?root = "noteBody ed"
  from frees obtain pe parent e s where
    rm: "styleToRemove k ?root r = Some pe"
    and par: "getNode ?root (butlast pe) = Some parent"
    and e: "getNode ?root pe = Some e" and only: "onlyText e = Some s"
    and sne: "s \<noteq> []"
    and first: "findTextChild (take (last pe) (childNodes parent)) s = None"
    and keep: "styleToRemove k (replaceAt pe [Text s] ?root)
        (selectNodeContents pe (length s)) = None"
    by (auto simp: freesOneText_def split: option.splits)
  from only obtain t where "e = Element t [Text s]"
    by (cases e rule: onlyText.cases) simp_all
  with e have node: "getNode ?root pe = Some (Element t [Text s])" by simp
  from styleToRemove_Some[OF rm] node have pne: "pe \<noteq> []" and tk: "t = k" by auto
  let ?root1 = "replaceAt pe [Text s] ?root"
  let ?r1 = "selectNodeContents pe (length s)"
  let ?ed1 = "\<lparr>noteBody = ?root1, selection = Some ?r1\<rparr>"
  have once: "applyInlineStyle k ed = ?ed1"
    by (rule unwrap_single_text[OF sel ne rm par node first])
  have g1: "getNode ?root1 pe = Some (Text s)"
    by (rule getNode_replaceAt_single[OF pne node])
  have ca1: "commonAncestorContainer ?r1 = pe"
    by (simp add: commonAncestorContainer_def selectNodeContents_def commonPrefix_same)
  have ne1: "\<not> isRangeEmpty ?r1"
    using sne by (simp add: isRangeEmpty_def selectNodeContents_def)
  have vr1: "validRange ?root1 ?r1"
    using g1 by (simp add: validRange_def validBoundary_def selectNodeContents_def boundaryLe_same)
  have el1: "isElement ?root1" by (rule isElement_replaceAt[OF el])
  from wrap_in_text[of ?ed1 ?r1 k s, unfolded ca1] ne1 keep vr1 el1 g1
  have twice: "noteBody (applyInlineStyle k ?ed1) =
      replaceAt pe [Text [], Element k [Text s], Text []] ?root1"
    by (simp add: selectNodeContents_def)
  from getNode_parent[OF pne node] obtain tp cp where
    parent: "getNode ?root (butlast pe) = Some (Element tp cp)"
    and i: "last pe < length cp" and c: "cp ! last pe = Element t [Text s]"
    by blast
  have "reparseNode (updateAt (butlast pe)
      (replaceChild (last pe) [Text [], Element k [Text s], Text []]) ?root) = reparseNode ?root"
    using reparse_empty_texts_around[OF i, of tp] c tk
    by (intro reparseNode_updateAt[where f = "replaceChild (last pe)
          [Text [], Element k [Text s], Text []]", OF parent]) simp
  then have "reparseNode (replaceAt pe [Text [], Element k [Text s], Text []] ?root) =
      reparseNode ?root"
    using pne by (simp add: replaceAt_def)
  moreover have "noteBody (applyInlineStyle k (applyInlineStyle k ed)) =
      replaceAt pe [Text [], Element k [Text s], Text []] ?root"
    by (simp only: once twice replaceAt_single_then)
  ultimately show ?thesis by simp
qed

text \<open>
  Claim C7, as amended. Let the selection be valid and not collapsed. The second call,
  on the state the first call returns, gives back the original tree up to the joining
  of adjacent text nodes and the dropping of empty ones in two cases. In the first, the
  first call applies the style (no element with the style's tag around the selection
  has exactly the selection's text) and the selection partially contains no element
  (each boundary point lies in the common ancestor container or in a text node that is
  its child, so that \<^verbatim>\<open>surroundContents\<close> does not throw): the second call removes
  the wrapper again. In the second, the first call removes the style from an element
  whose only child is a text node that is not empty, no earlier child of the element's
  parent is a text node with the same data, and the second call applies the style to
  the freed text (that text is not, in its turn, the whole text of an enclosing element
  with the style's tag): the second call wraps the freed text again.
\<close>

theorem double_toggle_restores:
  assumes valid: "validEditor ed" and sel: "selection ed = Some r"
    and ne: "\<not> isRangeEmpty r"
    and cases: "styleToRemove k (noteBody ed) r = None \<and>
        \<not> partiallyContainsNonText (noteBody ed) r \<or>
      freesOneText k (noteBody ed) r"
  shows "reparseNode (noteBody (applyInlineStyle k (applyInlineStyle k ed))) =
           reparseNode (noteBody ed)"
proof (cases "freesOneText k (noteBody ed) r")
  case True
  from valid have "isElement (noteBody ed)" by (simp add: validEditor_def)
  then show ?thesis by (rule double_toggle_frees_text[OF _ sel ne True])
next
  case False
  with cases have keep: "styleToRemove k (noteBody ed) r = None"
    and flat: "\<not> partiallyContainsNonText (noteBody ed) r" by simp_all
  let ?root = "noteBody ed"
  let ?c = "commonAncestorContainer r"
  let ?sp = "drop (length ?c) (startContainer r)"
  let ?ep = "drop (length ?c) (endContainer r)"
  from valid sel have vr: "validRange ?root r" and el: "isElement ?root"
    by (simp_all add: validEditor_def)
  from validRange_decompose[OF vr] obtain n where n: "getNode ?root ?c = Some n"
    and vs: "validBoundary n ?sp (startOffset r)"
    and ve: "validBoundary n ?ep (endOffset r)"
    and le: "boundaryLe ?sp (startOffset r) ?ep (endOffset r)"
    and dv: "?sp = [] \<or> ?ep = [] \<or> hd ?sp \<noteq> hd ?ep"
    by blast
  show ?thesis
  proof (cases n)
    case (Text s)
    with n have ca: "getNode ?root ?c = Some (Text s)" by simp
    from wrap_in_text[OF sel ne keep vr el ca] have cne: "?c \<noteq> []" by simp
    from text_range_offsets[OF ne vr ca] have so: "startOffset r \<le> endOffset r"
      "endOffset r \<le> length s" by auto
    from getNode_parent[OF cne ca] obtain tp cp where
      par: "getNode ?root (butlast ?c) = Some (Element tp cp)"
      and i: "last ?c < length cp" and c: "cp ! last ?c = Text s" by blast
    let ?ns = "[Text (take (startOffset r) s),
        Text (take (endOffset r - startOffset r) (drop (startOffset r) s)),
        Text (drop (endOffset r) s)]"
    have "reparseNode (updateAt (butlast ?c) (replaceChild (last ?c) ?ns) ?root) =
        reparseNode ?root"
      by (rule reparseNode_updateAt[where f = "replaceChild (last ?c) ?ns", OF par
            reparse_three_texts[OF i c so]])
    then show ?thesis
      unfolding double_toggle_in_text[OF sel ne keep vr el ca]
      using cne by (simp add: replaceAt_def)
  next
    case (Element t cs)
    with n have ca: "getNode ?root ?c = Some (Element t cs)" by simp
    from flat ca have fs: "\<not> elementBelow (Element t cs) ?sp"
      and fe: "\<not> elementBelow (Element t cs) ?ep"
      by (simp_all add: partiallyContainsNonText_def Let_def)
    have "reparseNode (Element t (respliced (extractIn (Element t cs)
        ?sp (startOffset r) ?ep (endOffset r)))) = reparseNode (Element t cs)"
      using respliced_reparse_kept[OF le vs[unfolded Element] ve[unfolded Element] dv fs fe]
      by simp
    then show ?thesis
      unfolding double_toggle_in_element[OF sel ne keep vr ca]
      by (rule reparseNode_updateAt[where f = "\<lambda>_. Element t (respliced (extractIn (Element t cs)
          ?sp (startOffset r) ?ep (endOffset r)))", OF ca])
  qed
qed

theorem double_toggle_restores_witness:
  "reparseNode (noteBody (applyInlineStyle STRONG (applyInlineStyle STRONG plainParagraph))) =
     Element DIV [Element P [Text ''hello world'']] \<and>
   freesOneText STRONG (noteBody boldHello) (selectNodeContents [0, 0] 1) \<and>
   reparseNode (noteBody (applyInlineStyle STRONG (applyInlineStyle STRONG boldHello))) =
     Element DIV [Element P [Element STRONG [Text ''hello''], Text '' world'']]"
proof -
  let ?r = "\<lparr>startContainer = [0, 0], startOffset = 0, endContainer = [0, 0], endOffset = 5\<rparr>"
  have body: "noteBody plainParagraph = Element DIV [Element P [Text ''hello world'']]"
    and sel: "selection plainParagraph = Some ?r"
    by (simp_all add: plainParagraph_def)
  have valid: "validEditor plainParagraph"
    by (simp add: validEditor_def body sel validRange_def validBoundary_def)
  have ne: "\<not> isRangeEmpty ?r" by (simp add: isRangeEmpty_def)
  have keep: "styleToRemove STRONG (noteBody plainParagraph) ?r = None"
    by (simp add: body styleToRemove_def commonAncestorContainer_def climb_simps)
  have flat: "\<not> partiallyContainsNonText (noteBody plainParagraph) ?r"
    by (simp add: body partiallyContainsNonText_def commonAncestorContainer_def)
  from keep flat have first: "styleToRemove STRONG (noteBody plainParagraph) ?r = None \<and>
        \<not> partiallyContainsNonText (noteBody plainParagraph) ?r \<or>
      freesOneText STRONG (noteBody plainParagraph) ?r" by simp
  let ?r' = "selectNodeContents [0, 0] 1"
  have body': "noteBody boldHello =
      Element DIV [Element P [Element STRONG [Text ''hello''], Text '' world'']]"
    and sel': "selection boldHello = Some ?r'"
    by (simp_all add: boldHello_def)
  have valid': "validEditor boldHello"
    by (simp add: validEditor_def body' sel' validRange_def validBoundary_def
        selectNodeContents_def)
  have ne': "\<not> isRangeEmpty ?r'" by (simp add: isRangeEmpty_def selectNodeContents_def)
  have frees: "freesOneText STRONG (noteBody boldHello) ?r'"
    by (simp add: body' freesOneText_def styleToRemove_def commonAncestorContainer_def
        selectNodeContents_def rangeToString_def extractContents_def isRangeEmpty_def
        replaceAt_def climb_simps)
  then have second: "styleToRemove STRONG (noteBody boldHello) ?r' = None \<and>
        \<not> partiallyContainsNonText (noteBody boldHello) ?r' \<or>
      freesOneText STRONG (noteBody boldHello) ?r'" by simp
  from double_toggle_restores[OF valid sel ne first]
    double_toggle_restores[OF valid' sel' ne' second] frees
  show ?thesis by (simp add: body body')
qed

text \<open>
  The claim as stated fails in each of these ways. When the selection starts in a text
  node and ends inside an emphasised span, the fallback extracts a clone of the span's
  first part, and after the second call the span stays split in two. When the style is
  removed from an element whose child is not a text node, the code's search finds no
  text node, the selection collapses and the second call does nothing. When an earlier
  sibling is a text node with the same data, the search selects that sibling and the
  second call wraps it instead of the freed text.
\<close>

theorem double_toggle_splits_elements_counterexample:
  "validEditor crossingEmphasis \<and>
   noteBody (applyInlineStyle STRONG (applyInlineStyle STRONG crossingEmphasis)) =
     Element DIV [Element P [Text ''a'', Text ''b'', Element EM [Text ''c''], Element EM [Text ''d'']]] \<and>
   reparseNode (noteBody (applyInlineStyle STRONG (applyInlineStyle STRONG crossingEmphasis))) \<noteq>
     reparseNode (noteBody crossingEmphasis) \<and>
   validEditor boldEmphasis \<and>
   applyInlineStyle STRONG boldEmphasis =
     \<lparr>noteBody = Element DIV [Element P [Element EM [Text ''hello'']]],
      selection = Some (collapsedAt [0] 1)\<rparr> \<and>
   reparseNode (noteBody (applyInlineStyle STRONG (applyInlineStyle STRONG boldEmphasis))) =
     Element DIV [Element P [Element EM [Text ''hello'']]] \<and>
   validEditor repeatedWord \<and>
   applyInlineStyle STRONG repeatedWord =
     \<lparr>noteBody = Element DIV [Element P [Text ''hi'', Text ''hi'']],
      selection = Some (selectNodeContents [0, 0] 2)\<rparr> \<and>
   reparseNode (noteBody (applyInlineStyle STRONG (applyInlineStyle STRONG repeatedWord))) =
     Element DIV [Element P [Element STRONG [Text ''hi''], Text ''hi'']]"
  by (simp add: crossingEmphasis_def boldEmphasis_def repeatedWord_def
      validEditor_def validRange_def validBoundary_def
      applyInlineStyle_def styleToRemove_def
      commonAncestorContainer_def isRangeEmpty_def rangeToString_def extractContents_def
      surroundContents_def extractAndWrap_def partiallyContainsNonText_def insertNode_def
      collapsedAt_def selectNodeContents_def unwrapElement_def replaceAt_def climb_simps Let_def)

subsection \<open>The text of the document\<close>

text \<open>
  What the three functions do to the text of the document. \<open>applyInlineStyle\<close> keeps
  it on every valid editor state. \<open>applyBlockFormat\<close> and \<open>toggleList\<close> keep it
  whenever a parent block or list item is found whose markup parses back, or none is
  found and the selected text parses to one text node, and, where a list with one
  element child gives way to a paragraph, whenever the list's text is the text of the
  item found.
\<close>

lemma textContent_replaceChild:
  assumes "i < length cs" and "concat (map textContent ns) = textContent (cs ! i)"
  shows "textContent (replaceChild i ns (Element t cs)) = textContent (Element t cs)"
proof -
  have "concat (map textContent (take i cs @ ns @ drop (Suc i) cs)) =
      concat (map textContent (take i cs @ cs ! i # drop (Suc i) cs))"
    using assms(2) by simp
  with assms(1) show ?thesis
    by (simp only: replaceChild.simps if_True textContent.simps
        id_take_nth_drop[OF assms(1), symmetric])
qed

lemma textContent_replaceAt:
  assumes "p \<noteq> []" and "getNode root p = Some n"
    and "concat (map textContent ns) = textContent n"
  shows "textContent (replaceAt p ns root) = textContent root"
proof -
  from getNode_parent[OF assms(1,2)] obtain t cs where
    par: "getNode root (butlast p) = Some (Element t cs)"
    and i: "last p < length cs" and c: "cs ! last p = n"
    by blast
  have "textContent (updateAt (butlast p) (replaceChild (last p) ns) root) = textContent root"
    using assms(3) c
    by (intro textContent_updateAt[where f = "replaceChild (last p) ns", OF par]
        textContent_replaceChild[OF i]) simp
  with assms(1) show ?thesis by (simp add: replaceAt_def)
qed

lemma applyInlineStyle_removes:
  assumes sel: "selection ed = Some r" and ne: "\<not> isRangeEmpty r"
    and rm: "styleToRemove k (noteBody ed) r = Some pe"
    and node: "getNode (noteBody ed) pe = Some e"
  shows "noteBody (applyInlineStyle k ed) = replaceAt pe (childNodes e) (noteBody ed)"
proof -
  from styleToRemove_Some[OF rm] have pne: "pe \<noteq> []" by simp
  from getNode_parent[OF pne node] obtain t cs where
    par: "getNode (noteBody ed) (butlast pe) = Some (Element t cs)"
    and i: "last pe < length cs" by blast
  have par': "getNode (unwrapElement (noteBody ed) pe) (butlast pe) =
      Some (Element t (take (last pe) cs @ childNodes e @ drop (Suc (last pe)) cs))"
    using getNode_replaceAt_parent[OF pne par i, of "childNodes e"] node
    by (simp add: unwrapElement_def)
  show ?thesis
    using sel ne rm node par'
    by (simp add: applyInlineStyle_def Let_def unwrapElement_def split: option.splits)
qed

lemma inline_style_keeps_text:
  assumes valid: "validEditor ed"
  shows "textContent (noteBody (applyInlineStyle k ed)) = textContent (noteBody ed)"
proof (cases "selection ed")
  case None
  then show ?thesis by (simp add: applyInlineStyle_def)
next
  case (Some r)
  note sel = Some
  let ?root = "noteBody ed"
  let ?c = "commonAncestorContainer r"
  from valid sel have vr: "validRange ?root r" and el: "isElement ?root"
    by (simp_all add: validEditor_def)
  show ?thesis
  proof (cases "isRangeEmpty r")
    case True
    with sel show ?thesis by (simp add: applyInlineStyle_def)
  next
    case ne: False
    show ?thesis
    proof (cases "styleToRemove k ?root r")
      case (Some pe)
      from styleToRemove_Some[OF Some] obtain e where pne: "pe \<noteq> []"
        and node: "getNode ?root pe = Some e" and tagged: "hasTag k e" by blast
      from tagged have "concat (map textContent (childNodes e)) = textContent e"
        by (cases e) simp_all
      from textContent_replaceAt[OF pne node this] show ?thesis
        by (simp add: applyInlineStyle_removes[OF sel ne Some node])
    next
      case None
      note keep = None
      from validRange_decompose[OF vr] obtain n where n: "getNode ?root ?c = Some n"
        and vs: "validBoundary n (drop (length ?c) (startContainer r)) (startOffset r)"
        and ve: "validBoundary n (drop (length ?c) (endContainer r)) (endOffset r)"
        and le: "boundaryLe (drop (length ?c) (startContainer r)) (startOffset r)
                   (drop (length ?c) (endContainer r)) (endOffset r)"
        and dv: "drop (length ?c) (startContainer r) = [] \<or>
                 drop (length ?c) (endContainer r) = [] \<or>
                 hd (drop (length ?c) (startContainer r)) \<noteq> hd (drop (length ?c) (endContainer r))"
        by blast
      show ?thesis
      proof (cases n)
        case (Text s)
        with n have ca: "getNode ?root ?c = Some (Text s)" by simp
        from text_range_offsets[OF ne vr ca] have so: "startOffset r \<le> endOffset r"
          "endOffset r \<le> length s" by auto
        from wrap_in_text[OF sel ne keep vr el ca] have cne: "?c \<noteq> []"
          and once: "noteBody (applyInlineStyle k ed) = replaceAt ?c
              [Text (take (startOffset r) s),
               Element k [Text (take (endOffset r - startOffset r) (drop (startOffset r) s))],
               Text (drop (endOffset r) s)] ?root"
          by auto
        have "take (startOffset r) s @ take (endOffset r - startOffset r) (drop (startOffset r) s) @
            drop (endOffset r) s = s"
          using so by (simp add: take_middle_drop)
        then show ?thesis
          unfolding once by (intro textContent_replaceAt[OF cne ca]) simp
      next
        case (Element t cs)
        with n have ca: "getNode ?root ?c = Some (Element t cs)" by simp
        from wrap_in_element[OF sel ne keep vr ca] obtain frag cs' off where
          ex: "extractIn (Element t cs)
              (drop (length ?c) (startContainer r)) (startOffset r)
              (drop (length ?c) (endContainer r)) (endOffset r) = (frag, Element t cs', off)"
          and once: "applyInlineStyle k ed =
              \<lparr>noteBody = updateAt ?c
                 (\<lambda>_. Element t (take off cs' @ [Element k frag] @ drop off cs')) ?root,
               selection = Some (selectNodeContents (?c @ [off]) (length frag))\<rparr>"
          by blast
        from respliced_text_kept[OF le vs[unfolded Element] ve[unfolded Element] dv]
        have "concat (map textContent (take off cs' @ frag @ drop off cs')) =
            concat (map textContent cs)"
          by (simp add: ex respliced_def)
        then have "textContent (Element t (take off cs' @ [Element k frag] @ drop off cs')) =
            textContent (Element t cs)" by simp
        then show ?thesis
          unfolding once
          using textContent_updateAt[where f = "\<lambda>_. Element t (take off cs' @ [Element k frag] @
              drop off cs')", OF ca]
          by simp
      qed
    qed
  qed
qed

lemma textContent_htmlOfText:
  "markupFree s \<Longrightarrow> concat (map textContent (htmlOfText parse s)) = s"
  by (simp add: htmlOfText_def)

lemma rangeToString_collapsed: "isRangeEmpty r \<Longrightarrow> rangeToString root r = []"
  by (simp add: rangeToString_def extractContents_def)

lemma delete_insert_keeps_text:
  assumes vr: "validRange root r" and el: "isElement root"
    and new: "textContent new = rangeToString root r"
  shows "textContent (fst (case deleteContents root r of
           (root1, r1) \<Rightarrow> insertNode root1 (startContainer r1) (startOffset r1) new)) =
         textContent root"
proof (cases "isRangeEmpty r")
  case True
  with new have empty: "textContent new = []" by (simp add: rangeToString_collapsed)
  from True have del: "deleteContents root r = (root, r)"
    by (simp add: deleteContents_def extractContents_def)
  from vr obtain n where n: "getNode root (startContainer r) = Some n"
    and off: "startOffset r \<le> nodeLength n"
    by (auto simp: validRange_def validBoundary_def split: option.splits)
  show ?thesis
  proof (cases n)
    case (Text s)
    with n el have ne: "startContainer r \<noteq> []" by (cases root) auto
    have "textContent (replaceAt (startContainer r)
        [Text (take (startOffset r) s), new, Text (drop (startOffset r) s)] root) = textContent root"
      using empty by (intro textContent_replaceAt[OF ne n[unfolded Text]]) simp
    with del n Text ne show ?thesis by (simp add: insertNode_def)
  next
    case (Element t cs)
    have "concat (map textContent (take (startOffset r) cs @ [new] @ drop (startOffset r) cs)) =
        concat (map textContent (take (startOffset r) cs @ drop (startOffset r) cs))"
      using empty by (simp del: append_take_drop_id)
    then have "textContent (Element t (take (startOffset r) cs @ [new] @ drop (startOffset r) cs)) =
        textContent (Element t cs)"
      by (simp only: textContent.simps append_take_drop_id)
    then have "textContent (updateAt (startContainer r)
        (\<lambda>_. Element t (take (startOffset r) cs @ [new] @ drop (startOffset r) cs)) root) =
        textContent root"
      using textContent_updateAt[where f = "\<lambda>_. Element t (take (startOffset r) cs @ [new] @
          drop (startOffset r) cs)", OF n[unfolded Element]]
      by simp
    with del n Element show ?thesis by (simp add: insertNode_def)
  qed
next
  case ne: False
  let ?c = "commonAncestorContainer r"
  let ?sp = "drop (length ?c) (startContainer r)"
  let ?ep = "drop (length ?c) (endContainer r)"
  from validRange_decompose[OF vr] obtain n where n: "getNode root ?c = Some n"
    and vs: "validBoundary n ?sp (startOffset r)"
    and ve: "validBoundary n ?ep (endOffset r)"
    and le: "boundaryLe ?sp (startOffset r) ?ep (endOffset r)"
    and dv: "?sp = [] \<or> ?ep = [] \<or> hd ?sp \<noteq> hd ?ep"
    by blast
  show ?thesis
  proof (cases n)
    case (Text s)
    with n have ca: "getNode root ?c = Some (Text s)" by simp
    from ca el have cne: "?c \<noteq> []" by (cases root) auto
    from text_range_offsets[OF ne vr ca] have so: "startOffset r \<le> endOffset r"
      "endOffset r \<le> length s" by auto
    let ?s' = "take (startOffset r) s @ drop (endOffset r) s"
    let ?mid = "take (endOffset r - startOffset r) (drop (startOffset r) s)"
    have ex: "extractContents root r =
        ([Text ?mid], updateAt ?c (\<lambda>_. Text ?s') root, collapsedAt ?c (startOffset r))"
      using ne ca by (simp add: extractContents_def Let_def)
    have g: "getNode (updateAt ?c (\<lambda>_. Text ?s') root) ?c = Some (Text ?s')"
      by (rule getNode_updateAt_same[OF ca])
    from so have tk: "take (startOffset r) ?s' = take (startOffset r) s"
      and dr: "drop (startOffset r) ?s' = drop (endOffset r) s"
      by (simp_all add: min_def)
    from new ex have tn: "textContent new = ?mid" by (simp add: rangeToString_def)
    have res: "fst (case deleteContents root r of
           (root1, r1) \<Rightarrow> insertNode root1 (startContainer r1) (startOffset r1) new) =
        replaceAt ?c [Text (take (startOffset r) s), new, Text (drop (endOffset r) s)] root"
      using g cne
      by (simp add: deleteContents_def ex insertNode_def collapsedAt_def
          replaceAt_after_updateAt[OF cne ca] tk dr del: take_append drop_append)
    have "take (startOffset r) s @ ?mid @ drop (endOffset r) s = s"
      using so by (simp add: take_middle_drop)
    then show ?thesis
      unfolding res using tn by (intro textContent_replaceAt[OF cne ca]) simp
  next
    case (Element t cs)
    with n have ca: "getNode root ?c = Some (Element t cs)" by simp
    from extractIn_element_shape obtain frag cs' off where
      ex: "extractIn (Element t cs) ?sp (startOffset r) ?ep (endOffset r) =
          (frag, Element t cs', off)"
      by blast
    have exc: "extractContents root r =
        (frag, updateAt ?c (\<lambda>_. Element t cs') root, collapsedAt ?c off)"
      using ne ca ex by (simp add: extractContents_def Let_def)
    have g: "getNode (updateAt ?c (\<lambda>_. Element t cs') root) ?c = Some (Element t cs')"
      by (rule getNode_updateAt_same[OF ca])
    from new exc have tn: "textContent new = concat (map textContent frag)"
      by (simp add: rangeToString_def)
    have res: "fst (case deleteContents root r of
           (root1, r1) \<Rightarrow> insertNode root1 (startContainer r1) (startOffset r1) new) =
        updateAt ?c (\<lambda>_. Element t (take off cs' @ [new] @ drop off cs')) root"
      using g
      by (simp add: deleteContents_def exc insertNode_def collapsedAt_def
          updateAt_updateAt comp_def)
    from respliced_text_kept[OF le vs[unfolded Element] ve[unfolded Element] dv]
    have "concat (map textContent (take off cs' @ frag @ drop off cs')) =
        concat (map textContent cs)"
      by (simp add: ex respliced_def)
    with tn have "textContent (Element t (take off cs' @ [new] @ drop off cs')) =
        textContent (Element t cs)" by simp
    then show ?thesis
      unfolding res
      using textContent_updateAt[where f = "\<lambda>_. Element t (take off cs' @ [new] @
          drop off cs')", OF ca]
      by simp
  qed
qed

lemma block_format_keeps_text:
  assumes valid: "validEditor ed" and sel: "selection ed = Some r"
    and safe: "case findParentBlock (noteBody ed) (commonAncestorContainer r) of
         Some pb \<Rightarrow> childrenParseBack (noteBody ed) pb
       | None \<Rightarrow> markupFree (rangeToString (noteBody ed) r)"
  shows "textContent (noteBody (applyBlockFormat parse k ed)) = textContent (noteBody ed)"
proof (cases "findParentBlock (noteBody ed) (commonAncestorContainer r)")
  case None
  with safe have mf: "markupFree (rangeToString (noteBody ed) r)" by simp
  from valid sel have vr: "validRange (noteBody ed) r" and el: "isElement (noteBody ed)"
    by (simp_all add: validEditor_def)
  let ?new = "Element k (htmlOfText parse (rangeToString (noteBody ed) r))"
  have "textContent ?new = rangeToString (noteBody ed) r"
    using mf by (simp add: textContent_htmlOfText)
  from delete_insert_keeps_text[OF vr el this] sel None show ?thesis
    by (auto simp add: applyBlockFormat_def Let_def split: prod.splits)
next
  case (Some pb)
  from findParentBlock_Some[OF Some] obtain b where ne: "pb \<noteq> []"
    and node: "getNode (noteBody ed) pb = Some b" and bb: "isBlockElement b" by blast
  from bb obtain t cs where b: "b = Element t cs" by (cases b) auto
  from safe Some node b have parses: "list_all parsesBack cs"
    by (simp add: childrenParseBack_def)
  have "concat (map textContent [Element (if t = k then P else k) (copyInnerHTML parse cs)]) =
      textContent b"
    using b by (simp add: textContent_copyInnerHTML[OF parses])
  from textContent_replaceAt[OF ne node this] show ?thesis
    by (simp add: applyBlockFormat_on_block[OF sel Some node[unfolded b]])
qed

lemma list_toggle_on_keeps_text:
  assumes valid: "validEditor ed" and sel: "selection ed = Some r"
    and none: "findExistingList (noteBody ed) (commonAncestorContainer r) = None"
    and safe: "case findParentBlock (noteBody ed) (commonAncestorContainer r) of
         Some pb \<Rightarrow> childrenParseBack (noteBody ed) pb
       | None \<Rightarrow> markupFree (rangeToString (noteBody ed) r)"
  shows "textContent (noteBody (toggleList parse listType ed)) = textContent (noteBody ed)"
proof (cases "findParentBlock (noteBody ed) (commonAncestorContainer r)")
  case None
  with safe have mf: "markupFree (rangeToString (noteBody ed) r)" by simp
  from valid sel have vr: "validRange (noteBody ed) r" and el: "isElement (noteBody ed)"
    by (simp_all add: validEditor_def)
  let ?new = "Element listType [Element LI (htmlOfText parse (rangeToString (noteBody ed) r))]"
  have "textContent ?new = rangeToString (noteBody ed) r"
    using mf by (simp add: textContent_htmlOfText)
  from delete_insert_keeps_text[OF vr el this] sel None none show ?thesis
    by (auto simp add: toggleList_def Let_def split: prod.splits)
next
  case (Some pb)
  from findParentBlock_Some[OF Some] obtain b where ne: "pb \<noteq> []"
    and node: "getNode (noteBody ed) pb = Some b" and bb: "isBlockElement b" by blast
  from safe Some node have parses: "list_all parsesBack (childNodes b)"
    by (simp add: childrenParseBack_def)
  have "concat (map textContent
      [Element listType [Element LI (copyInnerHTML parse (childNodes b))]]) = textContent b"
    using bb parses by (cases b) (simp_all add: textContent_copyInnerHTML)
  from textContent_replaceAt[OF ne node this] sel none Some node bb show ?thesis
    by (simp add: toggleList_def Let_def)
qed

lemma list_toggle_off_keeps_text:
  assumes sel: "selection ed = Some r"
    and lst: "findExistingList (noteBody ed) (commonAncestorContainer r) = Some pl"
    and nodes: "getNode (noteBody ed) pl = Some existingList"
    and parses: "\<And>pli. hasParentWithTag (noteBody ed) (commonAncestorContainer r) LI = Some pli \<Longrightarrow>
       childrenParseBack (noteBody ed) pli"
    and whole: "\<And>pli li. hasParentWithTag (noteBody ed) (commonAncestorContainer r) LI = Some pli \<Longrightarrow>
       getNode (noteBody ed) pli = Some li \<Longrightarrow> childElementCount existingList = 1 \<Longrightarrow>
       textContent existingList = textContent li"
  shows "textContent (noteBody (toggleList parse listType ed)) = textContent (noteBody ed)"
proof (cases "hasParentWithTag (noteBody ed) (commonAncestorContainer r) LI")
  case None
  with sel lst show ?thesis by (simp add: toggleList_def Let_def)
next
  case (Some pli)
  from hasParentWithTag_Some[OF Some] obtain li where pne: "pli \<noteq> []"
    and li: "getNode (noteBody ed) pli = Some li" and tagged: "hasTag LI li" by blast
  from findExistingList_Some[OF lst] have ne: "pl \<noteq> []" by simp
  from parses[OF Some] li have pb: "list_all parsesBack (childNodes li)"
    by (simp add: childrenParseBack_def)
  from tagged pb have tx: "textContent (Element P (copyInnerHTML parse (childNodes li))) =
      textContent li"
    by (cases li) (simp_all add: textContent_copyInnerHTML)
  show ?thesis
  proof (cases "childElementCount existingList = 1")
    case True
    from whole[OF Some li True] tx
    have "concat (map textContent [Element P (copyInnerHTML parse (childNodes li))]) =
        textContent existingList" by simp
    from textContent_replaceAt[OF ne nodes this] sel lst Some nodes li True show ?thesis
      by (simp add: toggleList_def Let_def)
  next
    case False
    from tx have "concat (map textContent [Element P (copyInnerHTML parse (childNodes li))]) =
        textContent li"
      by simp
    from textContent_replaceAt[OF pne li this] sel lst Some nodes li False show ?thesis
      by (simp add: toggleList_def Let_def)
  qed
qed

text \<open>
  Claim C1 at a failing input. Two paragraphs hold the text \<^verbatim>\<open>a<u>c\<close> and
  \<^verbatim>\<open>d\<close>, and the selection runs from the start of the first to the end of the
  second, so that no parent block is found. \<open>applyBlockFormat\<close> (and \<open>toggleList\<close>
  likewise) deletes the selected text and gives the new block, as its markup, the
  string \<^verbatim>\<open>a<u>cd\<close>: the text of the document is afterwards the text of whatever
  the parser builds from that markup (in a browser \<^verbatim>\<open>a\<close> and an underlined
  \<^verbatim>\<open>cd\<close>), not the text that was selected.
\<close>

theorem selected_text_parsed_as_markup:
  "validEditor markupAcross \<and> structureOk (noteBody markupAcross) \<and>
   rangeToString (noteBody markupAcross)
     \<lparr>startContainer = [0, 0], startOffset = 0, endContainer = [1, 0], endOffset = 1\<rparr> =
     ''a<u>cd'' \<and>
   textContent (noteBody markupAcross) = ''a<u>cd'' \<and>
   noteBody (applyBlockFormat parse H1 markupAcross) =
     Element DIV [Element P [Text ''''], Element H1 (parse ''a<u>cd''), Element P [Text '''']] \<and>
   textContent (noteBody (applyBlockFormat parse H1 markupAcross)) =
     concat (map textContent (parse ''a<u>cd'')) \<and>
   noteBody (toggleList parse UL markupAcross) =
     Element DIV [Element P [Text ''''], Element UL [Element LI (parse ''a<u>cd'')],
       Element P [Text '''']]"
  by (simp add: markupAcross_def validEditor_def validRange_def validBoundary_def
      structureOk_def nestingOk_def contentOk_def styleTags_def listTags_def blockTags_def
      applyBlockFormat_def toggleList_def findExistingList_def findParentBlock_def
      commonAncestorContainer_def rangeToString_def extractContents_def isRangeEmpty_def
      deleteContents_def insertNode_def collapsedAt_def htmlOfText_def markupFree_def
      climb_simps Let_def)

text \<open>
  Text outside the selection is lost as well when the nearest \<open>UL\<close> ancestor is not
  the list of the nearest \<open>LI\<close> ancestor: the outer list, which has one element
  child, gives way to a paragraph with the content of the inner item alone.
\<close>

lemma nested_list_text_lost:
  "validEditor nestedLists \<and> structureOk (noteBody nestedLists) \<and>
   textContent (noteBody nestedLists) = ''xab'' \<and>
   noteBody (toggleList parse UL nestedLists) = Element DIV [Element P [Text ''a'']] \<and>
   textContent (noteBody (toggleList parse UL nestedLists)) = ''a''"
  by (simp add: nestedLists_def validEditor_def validRange_def validBoundary_def
      structureOk_def nestingOk_def contentOk_def styleTags_def listTags_def collapsedAt_def
      toggleList_def findExistingList_def findParentBlock_def blockTags_def
      commonAncestorContainer_def childElementCount_def replaceAt_def reparse_def
      copyInnerHTML_def plainData_def climb_simps Let_def)

subsection \<open>The structural invariants under extraction and insertion\<close>

lemma splitNode_keeps_structure:
  "listItemsOnly n \<Longrightarrow> validBoundary n p off \<Longrightarrow>
     listItemsOnly (fst (splitNode n p off)) \<and> listItemsOnly (snd (splitNode n p off)) \<and>
     tagOf (fst (splitNode n p off)) = tagOf n \<and> tagOf (snd (splitNode n p off)) = tagOf n"
proof (induction p arbitrary: n)
  case Nil
  then show ?case by (cases n) (auto simp: list_all_take list_all_drop)
next
  case (Cons i p)
  show ?case
  proof (cases n)
    case (Text s)
    then show ?thesis by simp
  next
    case (Element t cs)
    with Cons.prems have i: "i < length cs" and sub: "validBoundary (cs ! i) p off"
      by (auto simp: validBoundary_def split: if_splits)
    from Cons.prems(1) Element i have ok: "listItemsOnly (cs ! i)"
      by (simp add: list_all_length)
    obtain l r where lr: "splitNode (cs ! i) p off = (l, r)" by (cases "splitNode (cs ! i) p off")
    from Cons.IH[OF ok sub] lr have l: "listItemsOnly l" "tagOf l = tagOf (cs ! i)"
      and r: "listItemsOnly r" "tagOf r = tagOf (cs ! i)" by auto
    have item: "hasTag LI l \<and> hasTag LI r" if "list_all (hasTag LI) cs"
      using that i l(2) r(2) by (simp add: list_all_length hasTag_tagOf)
    from Cons.prems(1) Element lr l r item show ?thesis
      by (auto simp: list_all_take list_all_drop)
  qed
qed

lemma splitChild_all:
  assumes "list_all Q cs" and "i < length cs"
    and "Q (fst (splitNode (cs ! i) p off))" and "Q (snd (splitNode (cs ! i) p off))"
  shows "list_all Q (splitChild cs i p off)"
  using assms by (auto simp add: splitChild_def list_all_take list_all_drop split: prod.splits)

lemma respliced_all:
  assumes le: "boundaryLe sp so ep eo"
    and vs: "validBoundary (Element t cs) sp so"
    and ve: "validBoundary (Element t cs) ep eo"
    and dv: "sp = [] \<or> ep = [] \<or> hd sp \<noteq> hd ep"
    and all: "list_all Q cs"
    and split: "\<And>c p off. Q c \<Longrightarrow> c \<in> set cs \<Longrightarrow> validBoundary c p off \<Longrightarrow>
        Q (fst (splitNode c p off)) \<and> Q (snd (splitNode c p off))"
  shows "list_all Q (respliced (extractIn (Element t cs) sp so ep eo))"
proof (cases sp)
  case Nil
  note sp = Nil
  show ?thesis
  proof (cases ep)
    case Nil
    with sp le ve have "so \<le> eo" "eo \<le> length cs" by (auto simp: validBoundary_def)
    with sp Nil all show ?thesis by (simp add: respliced_inside del: extractIn.simps)
  next
    case (Cons j ep')
    with sp le ve have so: "so \<le> j" and j: "j < length cs" and sj: "validBoundary (cs ! j) ep' eo"
      by (auto simp: validBoundary_def split: if_splits)
    from all j have "Q (cs ! j)" by (simp add: list_all_length)
    from split[OF this _ sj] j have "Q (fst (splitNode (cs ! j) ep' eo))"
      "Q (snd (splitNode (cs ! j) ep' eo))" by auto
    from splitChild_all[OF all j this] sp Cons so j show ?thesis
      by (simp add: respliced_end_below del: extractIn.simps)
  qed
next
  case (Cons i sp')
  with vs have i: "i < length cs" and si: "validBoundary (cs ! i) sp' so"
    by (auto simp: validBoundary_def split: if_splits)
  from all i have qi: "Q (cs ! i)" by (simp add: list_all_length)
  from split[OF qi _ si] i have pi: "Q (fst (splitNode (cs ! i) sp' so))"
    "Q (snd (splitNode (cs ! i) sp' so))" by auto
  show ?thesis
  proof (cases ep)
    case Nil
    with Cons le ve have "i < eo" "eo \<le> length cs" by (auto simp: validBoundary_def)
    with splitChild_all[OF all i pi] Cons Nil show ?thesis
      by (simp add: respliced_start_below del: extractIn.simps)
  next
    case ep: (Cons j ep')
    with Cons le ve dv have ij: "i < j" and j: "j < length cs"
      and sj: "validBoundary (cs ! j) ep' eo"
      by (auto simp: validBoundary_def split: if_splits)
    from all j have "Q (cs ! j)" by (simp add: list_all_length)
    from split[OF this _ sj] j have pj: "Q (fst (splitNode (cs ! j) ep' eo))"
      "Q (snd (splitNode (cs ! j) ep' eo))" by auto
    let ?cs2 = "splitChild cs j ep' eo"
    have all2: "list_all Q ?cs2" by (rule splitChild_all[OF all j pj])
    have len: "i < length ?cs2" using ij j by (simp add: splitChild_def split: prod.splits)
    have nth: "?cs2 ! i = cs ! i" using ij j
      by (simp add: splitChild_def nth_append split: prod.splits)
    from splitChild_all[OF all2 len] pi nth Cons ep ij j show ?thesis
      by (simp add: respliced_both_below del: extractIn.simps)
  qed
qed

lemma respliced_parts:
  assumes "list_all Q (respliced (frag, Element t cs', off))" and "off \<le> length cs'"
  shows "list_all Q frag \<and> list_all Q cs'"
proof -
  from assms(1) have "list_all Q (take off cs')" "list_all Q frag" "list_all Q (drop off cs')"
    by (simp_all add: respliced_def)
  then have "list_all Q (take off cs' @ drop off cs')" by (simp del: append_take_drop_id)
  then have "list_all Q cs'" by (simp only: append_take_drop_id)
  with \<open>list_all Q frag\<close> show ?thesis by simp
qed

lemma nestingOk_updateAt:
  assumes ok: "nestingOk root" and ne: "c \<noteq> []"
    and ca: "getNode root c = Some n"
    and new: "listItemsOnly (f n)" and same: "tagOf (f n) = tagOf n"
  shows "nestingOk (updateAt c f root)"
proof -
  from ne obtain j q where c: "c = j # q" by (cases c) auto
  from ca c obtain t cs where root: "root = Element t cs" by (cases root) auto
  with ca c have j: "j < length cs" and sub: "getNode (cs ! j) q = Some n"
    by (auto split: if_splits)
  from ok root j have okj: "listItemsOnly (cs ! j)" "\<not> isInline (cs ! j)"
    by (auto simp: nestingOk_def list_all_length)
  have newj: "listItemsOnly (updateAt q f (cs ! j))"
    by (rule listItemsOnly_updateAt[where f = f, OF okj(1) sub new same])
  have "tagOf (updateAt q f (cs ! j)) = tagOf (cs ! j)"
    by (rule tagOf_updateAt[where f = f, OF sub same])
  with okj(2) have "\<not> isInline (updateAt q f (cs ! j))"
    using isInline_tagOf by blast
  with newj ok root j c show ?thesis
    by (simp add: nestingOk_def list_all_update)
qed

lemma split_keeps_top_level:
  assumes "\<not> isInline c \<and> listItemsOnly c" and "validBoundary c p off"
  shows "(\<not> isInline (fst (splitNode c p off)) \<and> listItemsOnly (fst (splitNode c p off))) \<and>
         (\<not> isInline (snd (splitNode c p off)) \<and> listItemsOnly (snd (splitNode c p off)))"
  using splitNode_keeps_structure[of c p off] assms isInline_tagOf by blast

text \<open>A node inserted at the place where a non-collapsed range collapses after extraction.\<close>

lemma insert_in_element_keeps_structure:
  assumes ok: "nestingOk root"
    and ca: "getNode root c = Some (Element t cs)"
    and le: "boundaryLe sp so ep eo"
    and vs: "validBoundary (Element t cs) sp so"
    and ve: "validBoundary (Element t cs) ep eo"
    and dv: "sp = [] \<or> ep = [] \<or> hd sp \<noteq> hd ep"
    and ex: "extractIn (Element t cs) sp so ep eo = (frag, Element t cs', off)"
    and off: "off \<le> length cs'"
    and new: "list_all listItemsOnly frag \<Longrightarrow> listItemsOnly new"
    and place: "if c = [] then \<not> isInline new else t \<notin> set listTags"
  shows "nestingOk (updateAt c (\<lambda>_. Element t (take off cs' @ [new] @ drop off cs')) root)"
proof (cases "c = []")
  case True
  with ca have root: "root = Element t cs" by simp
  let ?Q = "\<lambda>c. \<not> isInline c \<and> listItemsOnly c"
  from ok root have all: "list_all ?Q cs" by (simp add: nestingOk_def)
  have "list_all ?Q (respliced (extractIn (Element t cs) sp so ep eo))"
    by (rule respliced_all[OF le vs ve dv all]) (rule split_keeps_top_level)
  from respliced_parts[OF this[unfolded ex] off] have f: "list_all ?Q frag" and c': "list_all ?Q cs'"
    by auto
  from f have "list_all listItemsOnly frag" by (simp add: list_all_iff)
  from new[OF this] place True have "?Q new" by simp
  with c' True show ?thesis
    by (simp add: nestingOk_def list_all_take list_all_drop)
next
  case False
  with place have nl: "t \<notin> set listTags" by simp
  have okn: "listItemsOnly (Element t cs)" by (rule nestingOk_getNode[OF ok False ca])
  then have all: "list_all listItemsOnly cs" by simp
  have "list_all listItemsOnly (respliced (extractIn (Element t cs) sp so ep eo))"
    by (rule respliced_all[OF le vs ve dv all]) (use splitNode_keeps_structure in blast)
  from respliced_parts[OF this[unfolded ex] off] have f: "list_all listItemsOnly frag"
    and c': "list_all listItemsOnly cs'" by auto
  from new[OF f] c' nl
  have li: "listItemsOnly (Element t (take off cs' @ [new] @ drop off cs'))"
    by (simp add: list_all_take list_all_drop)
  show ?thesis
    by (rule nestingOk_updateAt[where f = "\<lambda>_. Element t (take off cs' @ [new] @
        drop off cs')", OF ok False ca]) (use li nl in simp_all)
qed

text \<open>A node inserted between the halves of a text node.\<close>

lemma insert_in_text_keeps_structure:
  assumes ok: "nestingOk root" and el: "isElement root"
    and ca: "getNode root c = Some (Text s)"
    and new: "listItemsOnly new"
  shows "nestingOk (replaceAt c [Text a, new, Text b] root)"
proof -
  from el ca have cne: "c \<noteq> []" by (cases root) auto
  from getNode_parent[OF cne ca] obtain tp cp where
    par: "getNode root (butlast c) = Some (Element tp cp)"
    and i: "last c < length cp" and ci: "cp ! last c = Text s" by blast
  have deep: "butlast c \<noteq> []"
  proof
    assume top: "butlast c = []"
    with par have "root = Element tp cp" by simp
    with ok i have "\<not> isInline (cp ! last c)" by (simp add: nestingOk_def list_all_length)
    with ci show False by simp
  qed
  have "listItemsOnly (Element tp cp)" by (rule nestingOk_getNode[OF ok deep par])
  with i ci have nolist: "\<not> hasTag UL (Element tp cp) \<and> \<not> hasTag OL (Element tp cp)"
    using list_parent_has_items[of "Element tp cp" "last c"] by auto
  show ?thesis
    by (rule nestingOk_replaceAt[OF ok el cne par]) (use new nolist deep in simp_all)
qed

lemma updateAt_same_node: "getNode root p = Some n \<Longrightarrow> updateAt p (\<lambda>_. n) root = root"
proof (induction p arbitrary: root)
  case Nil
  then show ?case by simp
next
  case (Cons i p)
  then show ?case by (cases root) (auto split: if_splits)
qed

lemma collapsed_common_ancestor:
  "isRangeEmpty r \<Longrightarrow> commonAncestorContainer r = startContainer r"
  by (simp add: isRangeEmpty_def commonAncestorContainer_def commonPrefix_same)

text \<open>
  The tree after \<^verbatim>\<open>range.deleteContents()\<close> and \<^verbatim>\<open>range.insertNode(node)\<close>, for
  a collapsed range as well.
\<close>

lemma delete_insert_in_text:
  assumes vr: "validRange root r" and el: "isElement root"
    and ca: "getNode root (commonAncestorContainer r) = Some (Text s)"
  shows "fst (case deleteContents root r of
           (root1, r1) \<Rightarrow> insertNode root1 (startContainer r1) (startOffset r1) new) =
         replaceAt (commonAncestorContainer r)
           [Text (take (startOffset r) s), new, Text (drop (endOffset r) s)] root"
proof (cases "isRangeEmpty r")
  case True
  then have c: "commonAncestorContainer r = startContainer r"
    by (rule collapsed_common_ancestor)
  from True have del: "deleteContents root r = (root, r)"
    by (simp add: deleteContents_def extractContents_def)
  from ca c el have ne: "startContainer r \<noteq> []" by (cases root) auto
  from True have "endOffset r = startOffset r" by (simp add: isRangeEmpty_def)
  with del ca c ne show ?thesis by (simp add: insertNode_def)
next
  case ne: False
  let ?c = "commonAncestorContainer r"
  from ca el have cne: "?c \<noteq> []" by (cases root) auto
  from text_range_offsets[OF ne vr ca] have so: "startOffset r \<le> endOffset r"
    "endOffset r \<le> length s" by auto
  let ?s' = "take (startOffset r) s @ drop (endOffset r) s"
  let ?mid = "take (endOffset r - startOffset r) (drop (startOffset r) s)"
  have ex: "extractContents root r =
      ([Text ?mid], updateAt ?c (\<lambda>_. Text ?s') root, collapsedAt ?c (startOffset r))"
    using ne ca by (simp add: extractContents_def Let_def)
  have g: "getNode (updateAt ?c (\<lambda>_. Text ?s') root) ?c = Some (Text ?s')"
    by (rule getNode_updateAt_same[OF ca])
  from so have tk: "take (startOffset r) ?s' = take (startOffset r) s"
    and dr: "drop (startOffset r) ?s' = drop (endOffset r) s"
    by (simp_all add: min_def)
  show ?thesis
    using g cne
    by (simp add: deleteContents_def ex insertNode_def collapsedAt_def
        replaceAt_after_updateAt[OF cne ca] tk dr del: take_append drop_append)
qed

lemma delete_insert_in_element:
  assumes vr: "validRange root r"
    and ca: "getNode root (commonAncestorContainer r) = Some (Element t cs)"
  shows "\<exists>frag cs' off.
           extractIn (Element t cs)
             (drop (length (commonAncestorContainer r)) (startContainer r)) (startOffset r)
             (drop (length (commonAncestorContainer r)) (endContainer r)) (endOffset r) =
             (frag, Element t cs', off) \<and> off \<le> length cs' \<and>
           fst (case deleteContents root r of
             (root1, r1) \<Rightarrow> insertNode root1 (startContainer r1) (startOffset r1) new) =
           updateAt (commonAncestorContainer r)
             (\<lambda>_. Element t (take off cs' @ [new] @ drop off cs')) root"
proof -
  let ?c = "commonAncestorContainer r"
  let ?sp = "drop (length ?c) (startContainer r)"
  let ?ep = "drop (length ?c) (endContainer r)"
  from validRange_decompose[OF vr] ca have
    vs: "validBoundary (Element t cs) ?sp (startOffset r)"
    and ve: "validBoundary (Element t cs) ?ep (endOffset r)"
    and le: "boundaryLe ?sp (startOffset r) ?ep (endOffset r)"
    and dv: "?sp = [] \<or> ?ep = [] \<or> hd ?sp \<noteq> hd ?ep"
    and s: "startContainer r = ?c @ ?sp" and e: "endContainer r = ?c @ ?ep"
    by auto
  show ?thesis
  proof (cases "isRangeEmpty r")
    case True
    then have c: "?c = startContainer r" by (rule collapsed_common_ancestor)
    from True have eq: "endContainer r = startContainer r" "endOffset r = startOffset r"
      by (simp_all add: isRangeEmpty_def)
    from vs c have off: "startOffset r \<le> length cs" by (simp add: validBoundary_def)
    from True have del: "deleteContents root r = (root, r)"
      by (simp add: deleteContents_def extractContents_def)
    have ex: "extractIn (Element t cs) ?sp (startOffset r) ?ep (endOffset r) =
        ([], Element t cs, startOffset r)"
      using c eq by simp
    have "fst (case deleteContents root r of
             (root1, r1) \<Rightarrow> insertNode root1 (startContainer r1) (startOffset r1) new) =
        updateAt ?c (\<lambda>_. Element t (take (startOffset r) cs @ [new] @ drop (startOffset r) cs)) root"
      using del ca c by (simp add: insertNode_def)
    with ex off show ?thesis by blast
  next
    case ne: False
    from extractIn_element_shape obtain frag cs' off where
      ex: "extractIn (Element t cs) ?sp (startOffset r) ?ep (endOffset r) =
          (frag, Element t cs', off)"
      by blast
    from extractIn_offsets[OF le vs ve dv relative_not_collapsed[OF ne s e] ex]
    have off: "off \<le> length cs'" by simp
    have exc: "extractContents root r =
        (frag, updateAt ?c (\<lambda>_. Element t cs') root, collapsedAt ?c off)"
      using ne ca ex by (simp add: extractContents_def Let_def)
    have g: "getNode (updateAt ?c (\<lambda>_. Element t cs') root) ?c = Some (Element t cs')"
      by (rule getNode_updateAt_same[OF ca])
    have "fst (case deleteContents root r of
           (root1, r1) \<Rightarrow> insertNode root1 (startContainer r1) (startOffset r1) new) =
        updateAt ?c (\<lambda>_. Element t (take off cs' @ [new] @ drop off cs')) root"
      using g
      by (simp add: deleteContents_def exc insertNode_def collapsedAt_def
          updateAt_updateAt comp_def)
    with ex off show ?thesis by blast
  qed
qed

lemma delete_insert_keeps_structure:
  assumes ok: "nestingOk root" and vr: "validRange root r" and el: "isElement root"
    and new: "listItemsOnly new"
    and top: "commonAncestorContainer r = [] \<longrightarrow> \<not> isInline new"
    and place: "\<And>cn. commonAncestorContainer r \<noteq> [] \<Longrightarrow>
       getNode root (commonAncestorContainer r) = Some cn \<Longrightarrow> \<not> hasTag UL cn \<and> \<not> hasTag OL cn"
  shows "nestingOk (fst (case deleteContents root r of
           (root1, r1) \<Rightarrow> insertNode root1 (startContainer r1) (startOffset r1) new))"
proof -
  let ?c = "commonAncestorContainer r"
  let ?sp = "drop (length ?c) (startContainer r)"
  let ?ep = "drop (length ?c) (endContainer r)"
  from validRange_decompose[OF vr] obtain n where n: "getNode root ?c = Some n"
    and vs: "validBoundary n ?sp (startOffset r)"
    and ve: "validBoundary n ?ep (endOffset r)"
    and le: "boundaryLe ?sp (startOffset r) ?ep (endOffset r)"
    and dv: "?sp = [] \<or> ?ep = [] \<or> hd ?sp \<noteq> hd ?ep"
    by blast
  show ?thesis
  proof (cases n)
    case (Text s)
    with n have ca: "getNode root ?c = Some (Text s)" by simp
    show ?thesis
      unfolding delete_insert_in_text[OF vr el ca]
      by (rule insert_in_text_keeps_structure[OF ok el ca new])
  next
    case (Element t cs)
    with n have ca: "getNode root ?c = Some (Element t cs)" by simp
    from delete_insert_in_element[OF vr ca, of new] obtain frag cs' off where
      ex: "extractIn (Element t cs) ?sp (startOffset r) ?ep (endOffset r) =
          (frag, Element t cs', off)"
      and off: "off \<le> length cs'"
      and res: "fst (case deleteContents root r of
             (root1, r1) \<Rightarrow> insertNode root1 (startContainer r1) (startOffset r1) new) =
          updateAt ?c (\<lambda>_. Element t (take off cs' @ [new] @ drop off cs')) root"
      by blast
    have pl: "if ?c = [] then \<not> isInline new else t \<notin> set listTags"
      using top place[OF _ ca] by (auto simp: listTags_def)
    show ?thesis
      unfolding res
      by (rule insert_in_element_keeps_structure[OF ok ca le vs[unfolded Element]
            ve[unfolded Element] dv ex off new pl])
  qed
qed

lemma inline_unwrap_keeps_structure:
  assumes ok: "nestingOk (noteBody ed)" and el: "isElement (noteBody ed)"
    and sel: "selection ed = Some r" and ne: "\<not> isRangeEmpty r"
    and rm: "styleToRemove k (noteBody ed) r = Some pe"
    and kind: "k \<in> set styleTags"
  shows "nestingOk (noteBody (applyInlineStyle k ed))"
proof -
  let ?root = "noteBody ed"
  from styleToRemove_Some[OF rm] obtain e where pne: "pe \<noteq> []"
    and node: "getNode ?root pe = Some e" and tagged: "hasTag k e" by blast
  from tagged kind have inl: "isInline e" and noitem: "\<not> hasTag LI e"
    by (cases e; auto simp: styleTags_def)+
  from getNode_parent[OF pne node] obtain tp cp where
    par: "getNode ?root (butlast pe) = Some (Element tp cp)"
    and i: "last pe < length cp" and ci: "cp ! last pe = e" by blast
  have deep: "butlast pe \<noteq> []"
  proof
    assume "butlast pe = []"
    with par have "?root = Element tp cp" by simp
    with ok i have "\<not> isInline (cp ! last pe)" by (simp add: nestingOk_def list_all_length)
    with ci inl show False by simp
  qed
  have "listItemsOnly e" by (rule nestingOk_getNode[OF ok pne node])
  then have new: "list_all listItemsOnly (childNodes e)" by (rule listItemsOnly_children)
  have "listItemsOnly (Element tp cp)" by (rule nestingOk_getNode[OF ok deep par])
  with i ci noitem have nolist: "\<not> hasTag UL (Element tp cp) \<and> \<not> hasTag OL (Element tp cp)"
    using list_parent_has_items[of "Element tp cp" "last pe"] by auto
  show ?thesis
    unfolding applyInlineStyle_removes[OF sel ne rm node]
    by (rule nestingOk_replaceAt[OF ok el pne par new]) (use nolist deep in simp_all)
qed

lemma inline_wrap_keeps_structure:
  assumes ok: "nestingOk (noteBody ed)" and valid: "validEditor ed"
    and sel: "selection ed = Some r" and ne: "\<not> isRangeEmpty r"
    and keep: "styleToRemove k (noteBody ed) r = None"
    and kind: "k \<in> set styleTags"
    and cne: "commonAncestorContainer r \<noteq> []"
    and place: "tagAt (noteBody ed) (commonAncestorContainer r) \<notin> {Some UL, Some OL}"
  shows "nestingOk (noteBody (applyInlineStyle k ed))"
proof -
  let ?root = "noteBody ed"
  let ?c = "commonAncestorContainer r"
  let ?sp = "drop (length ?c) (startContainer r)"
  let ?ep = "drop (length ?c) (endContainer r)"
  from valid sel have vr: "validRange ?root r" and el: "isElement ?root"
    by (simp_all add: validEditor_def)
  from kind have nl: "k \<notin> set listTags" by (auto simp: styleTags_def listTags_def)
  from validRange_decompose[OF vr] obtain n where n: "getNode ?root ?c = Some n"
    and vs: "validBoundary n ?sp (startOffset r)"
    and ve: "validBoundary n ?ep (endOffset r)"
    and le: "boundaryLe ?sp (startOffset r) ?ep (endOffset r)"
    and dv: "?sp = [] \<or> ?ep = [] \<or> hd ?sp \<noteq> hd ?ep"
    by blast
  show ?thesis
  proof (cases n)
    case (Text s)
    with n have ca: "getNode ?root ?c = Some (Text s)" by simp
    from wrap_in_text[OF sel ne keep vr el ca]
    have once: "noteBody (applyInlineStyle k ed) = replaceAt ?c
        [Text (take (startOffset r) s),
         Element k [Text (take (endOffset r - startOffset r) (drop (startOffset r) s))],
         Text (drop (endOffset r) s)] ?root"
      by simp
    show ?thesis
      unfolding once
      by (rule insert_in_text_keeps_structure[OF ok el ca]) (use nl in simp)
  next
    case (Element t cs)
    with n have ca: "getNode ?root ?c = Some (Element t cs)" by simp
    from wrap_in_element[OF sel ne keep vr ca] obtain frag cs' off where
      ex: "extractIn (Element t cs) ?sp (startOffset r) ?ep (endOffset r) =
          (frag, Element t cs', off)"
      and off: "off \<le> length cs'"
      and once: "applyInlineStyle k ed =
          \<lparr>noteBody = updateAt ?c
             (\<lambda>_. Element t (take off cs' @ [Element k frag] @ drop off cs')) ?root,
           selection = Some (selectNodeContents (?c @ [off]) (length frag))\<rparr>"
      by blast
    from place ca have "t \<notin> set listTags" by (auto simp: tagAt_def listTags_def)
    with cne have pl: "if ?c = [] then \<not> isInline (Element k frag) else t \<notin> set listTags"
      by simp
    have new: "list_all listItemsOnly frag \<Longrightarrow> listItemsOnly (Element k frag)"
      using nl by simp
    show ?thesis
      unfolding once
      using insert_in_element_keeps_structure[OF ok ca le vs[unfolded Element]
          ve[unfolded Element] dv ex off new pl]
      by simp
  qed
qed

lemma listItemsOnly_htmlOfText:
  "markupFree s \<Longrightarrow> list_all listItemsOnly (htmlOfText parse s)"
  by (simp add: htmlOfText_def listTags_def)

lemma block_format_keeps_structure:
  assumes ok: "nestingOk (noteBody ed)" and valid: "validEditor ed"
    and sel: "selection ed = Some r"
    and kind: "k \<in> {H1, H2, H3, BLOCKQUOTE}"
    and safe: "case findParentBlock (noteBody ed) (commonAncestorContainer r) of
         Some pb \<Rightarrow> tagAt (noteBody ed) pb \<noteq> Some LI \<and> childrenParseBack (noteBody ed) pb
       | None \<Rightarrow> markupFree (rangeToString (noteBody ed) r) \<and>
           tagAt (noteBody ed) (commonAncestorContainer r) \<notin> {Some UL, Some OL}"
  shows "nestingOk (noteBody (applyBlockFormat parse k ed))"
proof (cases "findParentBlock (noteBody ed) (commonAncestorContainer r)")
  case None
  let ?root = "noteBody ed"
  from valid sel have vr: "validRange ?root r" and el: "isElement ?root"
    by (simp_all add: validEditor_def)
  from safe None have mf: "markupFree (rangeToString ?root r)"
    and place: "tagAt ?root (commonAncestorContainer r) \<notin> {Some UL, Some OL}" by simp_all
  let ?new = "Element k (htmlOfText parse (rangeToString ?root r))"
  have new: "listItemsOnly ?new"
    using kind listItemsOnly_htmlOfText[OF mf] by (auto simp: listTags_def)
  have top: "commonAncestorContainer r = [] \<longrightarrow> \<not> isInline ?new"
    using kind by (auto simp: styleTags_def)
  have pl: "\<not> hasTag UL cn \<and> \<not> hasTag OL cn"
    if "getNode ?root (commonAncestorContainer r) = Some cn" for cn
    using place that by (simp add: tagAt_def hasTag_tagOf)
  from delete_insert_keeps_structure[OF ok vr el new top pl] sel None show ?thesis
    by (auto simp add: applyBlockFormat_def Let_def split: prod.splits)
next
  case (Some pb)
  from findParentBlock_Some[OF Some] obtain b where
    node: "getNode (noteBody ed) pb = Some b" by blast
  from safe Some node have noitem: "\<not> hasTag LI b"
    and parses: "list_all parsesBack (childNodes b)"
    by (simp_all add: tagAt_def hasTag_tagOf childrenParseBack_def)
  from valid have el: "isElement (noteBody ed)" by (simp add: validEditor_def)
  show ?thesis
    by (rule block_on_block_keeps_structure[OF ok el sel kind Some node noitem parses])
qed

lemma list_toggle_keeps_structure:
  assumes ok: "nestingOk (noteBody ed)" and valid: "validEditor ed"
    and sel: "selection ed = Some r"
    and kind: "listType \<in> {UL, OL}"
    and safe: "case findExistingList (noteBody ed) (commonAncestorContainer r) of
         Some pl \<Rightarrow>
           (case hasParentWithTag (noteBody ed) (commonAncestorContainer r) LI of
              None \<Rightarrow> True
            | Some pli \<Rightarrow> elementCountAt (noteBody ed) pl = 1 \<and>
                childrenParseBack (noteBody ed) pli)
       | None \<Rightarrow>
           (case findParentBlock (noteBody ed) (commonAncestorContainer r) of
              Some pb \<Rightarrow> childrenParseBack (noteBody ed) pb
            | None \<Rightarrow> markupFree (rangeToString (noteBody ed) r))"
  shows "nestingOk (noteBody (toggleList parse listType ed))"
proof (cases "findExistingList (noteBody ed) (commonAncestorContainer r)")
  case (Some pl)
  from valid have el: "isElement (noteBody ed)" by (simp add: validEditor_def)
  from findExistingList_Some[OF Some] obtain lst where
    node: "getNode (noteBody ed) pl = Some lst" by blast
  from safe Some node have "case hasParentWithTag (noteBody ed) (commonAncestorContainer r) LI of
      None \<Rightarrow> True
    | Some pli \<Rightarrow> childElementCount lst = 1 \<and> childrenParseBack (noteBody ed) pli"
    by (simp add: elementCountAt_def split: option.splits)
  then show ?thesis
    by (rule list_off_keeps_structure[OF ok el sel Some node])
next
  case None
  let ?root = "noteBody ed"
  let ?c = "commonAncestorContainer r"
  from valid sel have vr: "validRange ?root r" and el: "isElement ?root"
    by (simp_all add: validEditor_def)
  show ?thesis
  proof (cases "findParentBlock ?root ?c")
    case (Some pb)
    with safe None have "childrenParseBack ?root pb" by simp
    then show ?thesis
      by (rule list_on_block_keeps_structure[OF ok el sel kind None Some])
  next
    case nb: None
    with safe \<open>findExistingList ?root ?c = None\<close>
    have mf: "markupFree (rangeToString ?root r)" by simp
    let ?new = "Element listType [Element LI (htmlOfText parse (rangeToString ?root r))]"
    have new: "listItemsOnly ?new"
      using listItemsOnly_htmlOfText[OF mf] by (simp add: listTags_def)
    have top: "?c = [] \<longrightarrow> \<not> isInline ?new"
      using kind by (auto simp: styleTags_def)
    have pl: "\<not> hasTag UL cn \<and> \<not> hasTag OL cn"
      if "?c \<noteq> []" and "getNode ?root ?c = Some cn" for cn
      using no_list_above[OF None that(2), of "length ?c" cn] that by simp
    from delete_insert_keeps_structure[OF ok vr el new top pl] sel None nb show ?thesis
      by (auto simp add: toggleList_def Let_def split: prod.splits)
  qed
qed

subsection \<open>The third invariant\<close>

lemma neverEmpty_getNode:
  "neverEmpty m \<Longrightarrow> getNode m p = Some n \<Longrightarrow> neverEmpty n"
proof (induction p arbitrary: m)
  case Nil
  then show ?case by simp
next
  case (Cons i p)
  then show ?case
    by (cases m) (auto split: if_splits simp: list_all_length)
qed

lemma contentOk_getNode:
  assumes "contentOk root" and "p \<noteq> []" and "getNode root p = Some n"
  shows "neverEmpty n"
proof -
  from assms(2) obtain i q where p: "p = i # q" by (cases p) auto
  from assms(3) p obtain t cs where root: "root = Element t cs" by (cases root) auto
  with assms(3) p have i: "i < length cs" and sub: "getNode (cs ! i) q = Some n"
    by (auto split: if_splits)
  from assms(1) root i have "neverEmpty (cs ! i)"
    by (simp add: contentOk_def list_all_length)
  then show ?thesis by (rule neverEmpty_getNode[OF _ sub])
qed

lemma neverEmpty_updateAt:
  "neverEmpty m \<Longrightarrow> getNode m p = Some n \<Longrightarrow> neverEmpty (f n) \<Longrightarrow>
     neverEmpty (updateAt p f m)"
proof (induction p arbitrary: m)
  case Nil
  then show ?case by simp
next
  case (Cons i p)
  show ?case
  proof (cases m)
    case (Text s)
    with Cons.prems show ?thesis by simp
  next
    case (Element t cs)
    with Cons.prems have i: "i < length cs" and sub: "getNode (cs ! i) p = Some n"
      by (auto split: if_splits)
    from Cons.prems(1) Element i have "neverEmpty (cs ! i)"
      by (simp add: list_all_length)
    from Cons.IH[OF this sub Cons.prems(3)] Cons.prems(1) Element i show ?thesis
      by (auto simp: list_all_update)
  qed
qed

lemma contentOk_updateAt:
  assumes ok: "contentOk root" and ca: "getNode root p = Some n"
    and new: "if p = [] then contentOk (f n) else neverEmpty (f n)"
  shows "contentOk (updateAt p f root)"
proof (cases p)
  case Nil
  with ca new show ?thesis by simp
next
  case (Cons i q)
  from ca Cons obtain t cs where root: "root = Element t cs" by (cases root) auto
  with ca Cons have i: "i < length cs" and sub: "getNode (cs ! i) q = Some n"
    by (auto split: if_splits)
  from ok root i have "neverEmpty (cs ! i)" by (simp add: contentOk_def list_all_length)
  from neverEmpty_updateAt[OF this sub, of f] new Cons
  have "neverEmpty (updateAt q f (cs ! i))" by simp
  with ok root i Cons show ?thesis
    by (simp add: contentOk_def list_all_update)
qed

lemma neverEmpty_replaceChild:
  assumes "neverEmpty n" and "list_all neverEmpty ns" and "ns \<noteq> []"
  shows "neverEmpty (replaceChild i ns n)"
  using assms by (cases n) (auto simp: list_all_take list_all_drop)

lemma contentOk_replaceAt:
  assumes ok: "contentOk root" and ne: "p \<noteq> []"
    and par: "getNode root (butlast p) = Some pn"
    and new: "list_all neverEmpty ns" "ns \<noteq> []"
  shows "contentOk (replaceAt p ns root)"
proof (cases "butlast p = []")
  case True
  with par have "pn = root" by simp
  with ok new True ne show ?thesis
    by (cases root) (auto simp: replaceAt_def contentOk_def list_all_take list_all_drop)
next
  case False
  have "neverEmpty pn" by (rule contentOk_getNode[OF ok False par])
  then have "neverEmpty (replaceChild (last p) ns pn)"
    by (rule neverEmpty_replaceChild[OF _ new])
  with False have "contentOk (updateAt (butlast p) (replaceChild (last p) ns) root)"
    by (intro contentOk_updateAt[OF ok par]) simp
  with ne show ?thesis by (simp add: replaceAt_def)
qed

lemma splitNode_neverEmpty:
  "neverEmpty n \<Longrightarrow> getNode n p = Some m \<Longrightarrow> 0 < off \<Longrightarrow> off < nodeLength m \<Longrightarrow>
     neverEmpty (fst (splitNode n p off)) \<and> neverEmpty (snd (splitNode n p off))"
proof (induction p arbitrary: n)
  case Nil
  then show ?case by (cases n) (auto simp: list_all_take list_all_drop)
next
  case (Cons i p)
  show ?case
  proof (cases n)
    case (Text s)
    with Cons.prems show ?thesis by simp
  next
    case (Element t cs)
    with Cons.prems have i: "i < length cs" and sub: "getNode (cs ! i) p = Some m"
      by (auto split: if_splits)
    from Cons.prems(1) Element i have "neverEmpty (cs ! i)" by (simp add: list_all_length)
    from Cons.IH[OF this sub Cons.prems(3,4)] Cons.prems(1) Element show ?thesis
      by (auto simp: list_all_take list_all_drop split: prod.splits)
  qed
qed

lemma cut_below:
  assumes "\<exists>m. getNode (Element t cs) (i # p) = Some m \<and> 0 < off \<and> off < nodeLength m"
    and "list_all neverEmpty cs"
  shows "i < length cs \<and> neverEmpty (fst (splitNode (cs ! i) p off)) \<and>
         neverEmpty (snd (splitNode (cs ! i) p off))"
proof -
  from assms(1) obtain m where i: "i < length cs" and sub: "getNode (cs ! i) p = Some m"
    and off: "0 < off" "off < nodeLength m"
    by (auto split: if_splits)
  from assms(2) i have "neverEmpty (cs ! i)" by (simp add: list_all_length)
  from splitNode_neverEmpty[OF this sub off] i show ?thesis by simp
qed

lemma extractIn_neverEmpty:
  assumes all: "list_all neverEmpty cs"
    and cs: "sp \<noteq> [] \<Longrightarrow> \<exists>m. getNode (Element t cs) sp = Some m \<and> 0 < so \<and> so < nodeLength m"
    and ce: "ep \<noteq> [] \<Longrightarrow> \<exists>m. getNode (Element t cs) ep = Some m \<and> 0 < eo \<and> eo < nodeLength m"
    and ex: "extractIn (Element t cs) sp so ep eo = (frag, Element t cs', off)"
  shows "list_all neverEmpty frag \<and> list_all neverEmpty cs'"
proof (cases sp)
  case Nil
  note sp = Nil
  show ?thesis
  proof (cases ep)
    case Nil
    with sp ex all show ?thesis by (auto simp: list_all_take list_all_drop)
  next
    case (Cons j ep')
    from cut_below[OF ce[unfolded Cons] all] ex sp Cons all show ?thesis
      by (auto simp: list_all_take list_all_drop split: prod.splits)
  qed
next
  case (Cons i sp')
  note sp = Cons
  from cut_below[OF cs[unfolded Cons] all] have l: "neverEmpty (fst (splitNode (cs ! i) sp' so))"
    and r: "neverEmpty (snd (splitNode (cs ! i) sp' so))" by simp_all
  show ?thesis
  proof (cases ep)
    case Nil
    with sp ex all l r show ?thesis
      by (auto simp: list_all_take list_all_drop split: prod.splits)
  next
    case (Cons j ep')
    from cut_below[OF ce[unfolded Cons] all] ex sp Cons all l r show ?thesis
      by (auto simp: list_all_take list_all_drop split: prod.splits)
  qed
qed

lemma cleanCut_below:
  assumes "cleanCut root c (c @ sp) off" and "getNode root c = Some n" and "sp \<noteq> []"
  shows "\<exists>m. getNode n sp = Some m \<and> 0 < off \<and> off < nodeLength m"
  using assms by (auto simp: cleanCut_def getNode_append split: option.splits node.splits)

lemma cleanCut_text:
  assumes "cleanCut root c c off" and "getNode root c = Some (Text s)"
  shows "0 < off \<and> off < length s"
  using assms by (simp add: cleanCut_def)

text \<open>A node inserted where the range collapses, when the range cuts cleanly.\<close>

lemma insert_in_element_keeps_content:
  assumes ok: "contentOk root"
    and ca: "getNode root c = Some (Element t cs)"
    and cs: "sp \<noteq> [] \<Longrightarrow> \<exists>m. getNode (Element t cs) sp = Some m \<and> 0 < so \<and> so < nodeLength m"
    and ce: "ep \<noteq> [] \<Longrightarrow> \<exists>m. getNode (Element t cs) ep = Some m \<and> 0 < eo \<and> eo < nodeLength m"
    and ex: "extractIn (Element t cs) sp so ep eo = (frag, Element t cs', off)"
    and new: "list_all neverEmpty frag \<Longrightarrow> neverEmpty new"
  shows "contentOk (updateAt c (\<lambda>_. Element t (take off cs' @ [new] @ drop off cs')) root)"
proof -
  have all: "list_all neverEmpty cs"
  proof (cases "c = []")
    case True
    with ca ok show ?thesis by (simp add: contentOk_def)
  next
    case False
    from contentOk_getNode[OF ok False ca] show ?thesis by simp
  qed
  from extractIn_neverEmpty[OF all cs ce ex] have f: "list_all neverEmpty frag"
    and c': "list_all neverEmpty cs'" by simp_all
  from new[OF f] c' have xs: "list_all neverEmpty (take off cs' @ [new] @ drop off cs')"
    by (simp add: list_all_take list_all_drop)
  show ?thesis
    by (rule contentOk_updateAt[OF ok ca]) (use xs in \<open>simp add: contentOk_def\<close>)
qed

lemma insert_in_text_keeps_content:
  assumes ok: "contentOk root" and el: "isElement root"
    and ca: "getNode root c = Some (Text s)"
    and new: "neverEmpty new" and a: "a \<noteq> []" and b: "b \<noteq> []"
  shows "contentOk (replaceAt c [Text a, new, Text b] root)"
proof -
  from el ca have cne: "c \<noteq> []" by (cases root) auto
  from getNode_parent[OF cne ca] obtain tp cp where
    par: "getNode root (butlast c) = Some (Element tp cp)" by blast
  show ?thesis
    by (rule contentOk_replaceAt[OF ok cne par]) (use new a b in simp_all)
qed

lemma delete_insert_keeps_content:
  assumes ok: "contentOk root" and vr: "validRange root r" and el: "isElement root"
    and new: "neverEmpty new" and cut: "cutsInside root r"
  shows "contentOk (fst (case deleteContents root r of
           (root1, r1) \<Rightarrow> insertNode root1 (startContainer r1) (startOffset r1) new))"
proof -
  let ?c = "commonAncestorContainer r"
  let ?sp = "drop (length ?c) (startContainer r)"
  let ?ep = "drop (length ?c) (endContainer r)"
  from validRange_decompose[OF vr] obtain n where n: "getNode root ?c = Some n"
    and vs: "validBoundary n ?sp (startOffset r)"
    and ve: "validBoundary n ?ep (endOffset r)"
    and s: "startContainer r = ?c @ ?sp" and e: "endContainer r = ?c @ ?ep"
    by blast
  from cut s e have cs: "cleanCut root ?c (?c @ ?sp) (startOffset r)"
    and ce: "cleanCut root ?c (?c @ ?ep) (endOffset r)"
    by (simp_all add: cutsInside_def)
  show ?thesis
  proof (cases n)
    case (Text s)
    with n have ca: "getNode root ?c = Some (Text s)" by simp
    from vs Text have sp: "?sp = []" by (cases ?sp) (auto simp: validBoundary_def)
    from ve Text have ep: "?ep = []" by (cases ?ep) (auto simp: validBoundary_def)
    from cleanCut_text[OF _ ca] cs ce sp ep
    have "0 < startOffset r" "startOffset r < length s" "endOffset r < length s" by simp_all
    then have "take (startOffset r) s \<noteq> []" "drop (endOffset r) s \<noteq> []" by auto
    then show ?thesis
      unfolding delete_insert_in_text[OF vr el ca]
      by (intro insert_in_text_keeps_content[OF ok el ca new])
  next
    case (Element t cs)
    with n have ca: "getNode root ?c = Some (Element t cs)" by simp
    from delete_insert_in_element[OF vr ca, of new] obtain frag cs' off where
      ex: "extractIn (Element t cs) ?sp (startOffset r) ?ep (endOffset r) =
          (frag, Element t cs', off)"
      and res: "fst (case deleteContents root r of
             (root1, r1) \<Rightarrow> insertNode root1 (startContainer r1) (startOffset r1) new) =
          updateAt ?c (\<lambda>_. Element t (take off cs' @ [new] @ drop off cs')) root"
      by blast
    show ?thesis
      unfolding res
      by (rule insert_in_element_keeps_content[OF ok ca cleanCut_below[OF cs ca]
            cleanCut_below[OF ce ca] ex new])
  qed
qed

lemma inline_unwrap_keeps_content:
  assumes ok: "contentOk (noteBody ed)"
    and sel: "selection ed = Some r" and ne: "\<not> isRangeEmpty r"
    and rm: "styleToRemove k (noteBody ed) r = Some pe"
    and kind: "k \<in> set styleTags"
  shows "contentOk (noteBody (applyInlineStyle k ed))"
proof -
  let ?root = "noteBody ed"
  from styleToRemove_Some[OF rm] obtain e where pne: "pe \<noteq> []"
    and node: "getNode ?root pe = Some e" and tagged: "hasTag k e" by blast
  from getNode_parent[OF pne node] obtain tp cp where
    par: "getNode ?root (butlast pe) = Some (Element tp cp)" by blast
  have "neverEmpty e" by (rule contentOk_getNode[OF ok pne node])
  with tagged kind have new: "list_all neverEmpty (childNodes e)" "childNodes e \<noteq> []"
    by (cases e; auto)+
  show ?thesis
    unfolding applyInlineStyle_removes[OF sel ne rm node]
    by (rule contentOk_replaceAt[OF ok pne par new])
qed

lemma inline_wrap_keeps_content:
  assumes ok: "contentOk (noteBody ed)" and valid: "validEditor ed"
    and sel: "selection ed = Some r" and ne: "\<not> isRangeEmpty r"
    and keep: "styleToRemove k (noteBody ed) r = None"
    and cut: "cutsInside (noteBody ed) r"
  shows "contentOk (noteBody (applyInlineStyle k ed))"
proof -
  let ?root = "noteBody ed"
  let ?c = "commonAncestorContainer r"
  let ?sp = "drop (length ?c) (startContainer r)"
  let ?ep = "drop (length ?c) (endContainer r)"
  from valid sel have vr: "validRange ?root r" and el: "isElement ?root"
    by (simp_all add: validEditor_def)
  from validRange_decompose[OF vr] obtain n where n: "getNode ?root ?c = Some n"
    and vs: "validBoundary n ?sp (startOffset r)"
    and ve: "validBoundary n ?ep (endOffset r)"
    and s: "startContainer r = ?c @ ?sp" and e: "endContainer r = ?c @ ?ep"
    by blast
  from cut s e have cs: "cleanCut ?root ?c (?c @ ?sp) (startOffset r)"
    and ce: "cleanCut ?root ?c (?c @ ?ep) (endOffset r)"
    by (simp_all add: cutsInside_def)
  show ?thesis
  proof (cases n)
    case (Text s)
    with n have ca: "getNode ?root ?c = Some (Text s)" by simp
    from vs Text have sp: "?sp = []" by (cases ?sp) (auto simp: validBoundary_def)
    from ve Text have ep: "?ep = []" by (cases ?ep) (auto simp: validBoundary_def)
    from cleanCut_text[OF _ ca] cs ce sp ep
    have so: "0 < startOffset r" "startOffset r < length s" "endOffset r < length s"
      by simp_all
    from text_range_offsets[OF ne vr ca] have lt: "startOffset r < endOffset r" by simp
    from so lt have pieces: "take (startOffset r) s \<noteq> []" "drop (endOffset r) s \<noteq> []"
      "take (endOffset r - startOffset r) (drop (startOffset r) s) \<noteq> []" by auto
    from wrap_in_text[OF sel ne keep vr el ca]
    have once: "noteBody (applyInlineStyle k ed) = replaceAt ?c
        [Text (take (startOffset r) s),
         Element k [Text (take (endOffset r - startOffset r) (drop (startOffset r) s))],
         Text (drop (endOffset r) s)] ?root"
      by simp
    show ?thesis
      unfolding once
      by (rule insert_in_text_keeps_content[OF ok el ca]) (use pieces in simp_all)
  next
    case (Element t cs)
    with n have ca: "getNode ?root ?c = Some (Element t cs)" by simp
    from wrap_in_element[OF sel ne keep vr ca] obtain frag cs' off where
      ex: "extractIn (Element t cs) ?sp (startOffset r) ?ep (endOffset r) =
          (frag, Element t cs', off)"
      and fne: "frag \<noteq> []"
      and once: "applyInlineStyle k ed =
          \<lparr>noteBody = updateAt ?c
             (\<lambda>_. Element t (take off cs' @ [Element k frag] @ drop off cs')) ?root,
           selection = Some (selectNodeContents (?c @ [off]) (length frag))\<rparr>"
      by blast
    have new: "list_all neverEmpty frag \<Longrightarrow> neverEmpty (Element k frag)"
      using fne by simp
    show ?thesis
      unfolding once
      using insert_in_element_keeps_content[OF ok ca cleanCut_below[OF cs ca]
          cleanCut_below[OF ce ca] ex new]
      by simp
  qed
qed

lemma neverEmpty_htmlOfText:
  "markupFree s \<Longrightarrow> list_all neverEmpty (htmlOfText parse s) \<and> htmlOfText parse s \<noteq> []"
  by (simp add: htmlOfText_def blockTags_def styleTags_def)

lemma neverEmpty_copy:
  assumes "neverEmpty b" and "isBlockElement b" and "list_all parsesBack (childNodes b)"
  shows "list_all neverEmpty (copyInnerHTML parse (childNodes b)) \<and>
         copyInnerHTML parse (childNodes b) \<noteq> []"
proof -
  from assms(1,2) have "list_all neverEmpty (childNodes b)" "childNodes b \<noteq> []"
    by (cases b; auto)+
  from neverEmpty_reparse[OF this(1)] this(2) assms(3) show ?thesis
    by (simp add: copyInnerHTML_parsesBack)
qed

lemma block_format_keeps_content:
  assumes ok: "contentOk (noteBody ed)" and valid: "validEditor ed"
    and sel: "selection ed = Some r"
    and kind: "k \<in> {H1, H2, H3, BLOCKQUOTE}"
    and safe: "case findParentBlock (noteBody ed) (commonAncestorContainer r) of
         Some pb \<Rightarrow> childrenParseBack (noteBody ed) pb
       | None \<Rightarrow> markupFree (rangeToString (noteBody ed) r) \<and> cutsInside (noteBody ed) r"
  shows "contentOk (noteBody (applyBlockFormat parse k ed))"
proof (cases "findParentBlock (noteBody ed) (commonAncestorContainer r)")
  case None
  let ?root = "noteBody ed"
  from valid sel have vr: "validRange ?root r" and el: "isElement ?root"
    by (simp_all add: validEditor_def)
  from safe None have mf: "markupFree (rangeToString ?root r)"
    and cut: "cutsInside ?root r" by simp_all
  let ?new = "Element k (htmlOfText parse (rangeToString ?root r))"
  have new: "neverEmpty ?new"
    using neverEmpty_htmlOfText[OF mf, of parse] by simp
  from delete_insert_keeps_content[OF ok vr el new cut] sel None show ?thesis
    by (auto simp add: applyBlockFormat_def Let_def split: prod.splits)
next
  case (Some pb)
  let ?root = "noteBody ed"
  from findParentBlock_Some[OF Some] obtain b where ne: "pb \<noteq> []"
    and node: "getNode ?root pb = Some b" and bb: "isBlockElement b" by blast
  from bb obtain t cs where b: "b = Element t cs" by (cases b) auto
  from safe Some node have parses: "list_all parsesBack (childNodes b)"
    by (simp add: childrenParseBack_def)
  from getNode_parent[OF ne node] obtain tp cp where
    par: "getNode ?root (butlast pb) = Some (Element tp cp)" by blast
  have "neverEmpty b" by (rule contentOk_getNode[OF ok ne node])
  from neverEmpty_copy[OF this bb parses, of parse] b
  have new: "list_all neverEmpty [Element (if t = k then P else k) (copyInnerHTML parse cs)]"
    by simp
  show ?thesis
    unfolding applyBlockFormat_on_block[OF sel Some node[unfolded b]] editor.simps
    by (rule contentOk_replaceAt[OF ok ne par new]) simp
qed

lemma list_toggle_keeps_content:
  assumes ok: "contentOk (noteBody ed)" and valid: "validEditor ed"
    and sel: "selection ed = Some r"
    and safe: "case findExistingList (noteBody ed) (commonAncestorContainer r) of
         Some pl \<Rightarrow>
           (case hasParentWithTag (noteBody ed) (commonAncestorContainer r) LI of
              None \<Rightarrow> True
            | Some pli \<Rightarrow> childrenParseBack (noteBody ed) pli)
       | None \<Rightarrow>
           (case findParentBlock (noteBody ed) (commonAncestorContainer r) of
              Some pb \<Rightarrow> childrenParseBack (noteBody ed) pb
            | None \<Rightarrow> markupFree (rangeToString (noteBody ed) r) \<and> cutsInside (noteBody ed) r)"
  shows "contentOk (noteBody (toggleList parse listType ed))"
proof (cases "findExistingList (noteBody ed) (commonAncestorContainer r)")
  case (Some pl)
  let ?root = "noteBody ed"
  let ?c = "commonAncestorContainer r"
  from findExistingList_Some[OF Some] obtain lst where lne: "pl \<noteq> []"
    and lnode: "getNode ?root pl = Some lst" by blast
  show ?thesis
  proof (cases "hasParentWithTag ?root ?c LI")
    case None
    with sel Some have "toggleList parse listType ed = ed" by (simp add: toggleList_def Let_def)
    with ok show ?thesis by simp
  next
    case item: (Some pli)
    from hasParentWithTag_Some[OF item] obtain li where pne: "pli \<noteq> []"
      and li: "getNode ?root pli = Some li" and tagged: "hasTag LI li" by blast
    from safe Some item li have parses: "list_all parsesBack (childNodes li)"
      by (simp add: childrenParseBack_def)
    from tagged have bb: "isBlockElement li" by (cases li) (auto simp: blockTags_def)
    have "neverEmpty li" by (rule contentOk_getNode[OF ok pne li])
    from neverEmpty_copy[OF this bb parses, of parse]
    have new: "list_all neverEmpty [Element P (copyInnerHTML parse (childNodes li))]"
      by (simp add: blockTags_def)
    from getNode_parent[OF lne lnode] obtain tp cp where
      lpar: "getNode ?root (butlast pl) = Some (Element tp cp)" by blast
    from getNode_parent[OF pne li] obtain tq cq where
      ipar: "getNode ?root (butlast pli) = Some (Element tq cq)" by blast
    show ?thesis
    proof (cases "childElementCount lst = 1")
      case True
      with sel Some item lnode li
      have "noteBody (toggleList parse listType ed) =
          replaceAt pl [Element P (copyInnerHTML parse (childNodes li))] ?root"
        by (simp add: toggleList_def Let_def)
      then show ?thesis
        by (simp add: contentOk_replaceAt[OF ok lne lpar new])
    next
      case False
      with sel Some item lnode li
      have "noteBody (toggleList parse listType ed) =
          replaceAt pli [Element P (copyInnerHTML parse (childNodes li))] ?root"
        by (simp add: toggleList_def Let_def)
      then show ?thesis
        by (simp add: contentOk_replaceAt[OF ok pne ipar new])
    qed
  qed
next
  case None
  let ?root = "noteBody ed"
  let ?c = "commonAncestorContainer r"
  from valid sel have vr: "validRange ?root r" and el: "isElement ?root"
    by (simp_all add: validEditor_def)
  show ?thesis
  proof (cases "findParentBlock ?root ?c")
    case (Some pb)
    from findParentBlock_Some[OF Some] obtain b where ne: "pb \<noteq> []"
      and node: "getNode ?root pb = Some b" and bb: "isBlockElement b" by blast
    from safe None Some node have parses: "list_all parsesBack (childNodes b)"
      by (simp add: childrenParseBack_def)
    from getNode_parent[OF ne node] obtain tp cp where
      par: "getNode ?root (butlast pb) = Some (Element tp cp)" by blast
    have "neverEmpty b" by (rule contentOk_getNode[OF ok ne node])
    from neverEmpty_copy[OF this bb parses, of parse]
    have new: "list_all neverEmpty
        [Element listType [Element LI (copyInnerHTML parse (childNodes b))]]"
      by simp
    from sel None Some node bb
    have "noteBody (toggleList parse listType ed) =
        replaceAt pb [Element listType [Element LI (copyInnerHTML parse (childNodes b))]] ?root"
      by (simp add: toggleList_def Let_def)
    then show ?thesis
      by (simp add: contentOk_replaceAt[OF ok ne par new])
  next
    case nb: None
    with safe \<open>findExistingList ?root ?c = None\<close>
    have mf: "markupFree (rangeToString ?root r)" and cut: "cutsInside ?root r" by simp_all
    let ?new = "Element listType [Element LI (htmlOfText parse (rangeToString ?root r))]"
    have new: "neverEmpty ?new"
      using neverEmpty_htmlOfText[OF mf, of parse] by simp
    from delete_insert_keeps_content[OF ok vr el new cut] sel None nb show ?thesis
      by (auto simp add: toggleList_def Let_def split: prod.splits)
  qed
qed

text \<open>
  Claim C2, as amended. Let the editor state be valid and its tree satisfy the three
  invariants. The first two (no inline node under \<^verbatim>\<open>#noteBody\<close>, list children
  are list items) hold again
  \<^item> after \<open>applyInlineStyle\<close>, when the selection is collapsed, when the style is
    removed, or when the range's common ancestor container is neither
    \<^verbatim>\<open>#noteBody\<close> nor a list element;
  \<^item> after \<open>applyBlockFormat\<close>, when the parent block found is not a list item and
    its markup parses back, or when none is found, the selected text parses to one text
    node and the common ancestor container is not a list element;
  \<^item> after \<open>toggleList\<close>, inside a list when no list item is found or the list has
    one element child and the item's markup parses back, and outside every list when a
    parent block is found whose markup parses back or none is found and the selected text
    parses to one text node.

  The third (no empty text node, no block or styled element without children) holds
  again
  \<^item> after \<open>applyInlineStyle\<close>, when the selection is collapsed, when the style is
    removed, or when the range cuts cleanly;
  \<^item> after \<open>applyBlockFormat\<close> and \<open>toggleList\<close>, when the parent block or list
    item found has markup that parses back (or, in a list, no item is found), or when
    none is found, the selected text parses to one text node and the range cuts cleanly.
\<close>

theorem toggles_keep_structure:
  assumes ok: "structureOk (noteBody ed)" and valid: "validEditor ed"
    and sel: "selection ed = Some r"
  shows "(style \<in> set styleTags \<longrightarrow>
            (isRangeEmpty r \<or> styleToRemove style (noteBody ed) r \<noteq> None \<or>
               commonAncestorContainer r \<noteq> [] \<and>
               tagAt (noteBody ed) (commonAncestorContainer r) \<notin> {Some UL, Some OL} \<longrightarrow>
             nestingOk (noteBody (applyInlineStyle style ed))) \<and>
            (isRangeEmpty r \<or> styleToRemove style (noteBody ed) r \<noteq> None \<or>
               cutsInside (noteBody ed) r \<longrightarrow>
             contentOk (noteBody (applyInlineStyle style ed)))) \<and>
         (k \<in> {H1, H2, H3, BLOCKQUOTE} \<longrightarrow>
            ((case findParentBlock (noteBody ed) (commonAncestorContainer r) of
                Some pb \<Rightarrow> tagAt (noteBody ed) pb \<noteq> Some LI \<and>
                  childrenParseBack (noteBody ed) pb
              | None \<Rightarrow> markupFree (rangeToString (noteBody ed) r) \<and>
                  tagAt (noteBody ed) (commonAncestorContainer r) \<notin> {Some UL, Some OL}) \<longrightarrow>
             nestingOk (noteBody (applyBlockFormat parse k ed))) \<and>
            ((case findParentBlock (noteBody ed) (commonAncestorContainer r) of
                Some pb \<Rightarrow> childrenParseBack (noteBody ed) pb
              | None \<Rightarrow> markupFree (rangeToString (noteBody ed) r) \<and>
                  cutsInside (noteBody ed) r) \<longrightarrow>
             contentOk (noteBody (applyBlockFormat parse k ed)))) \<and>
         (listType \<in> {UL, OL} \<longrightarrow>
            ((case findExistingList (noteBody ed) (commonAncestorContainer r) of
                Some pl \<Rightarrow>
                  (case hasParentWithTag (noteBody ed) (commonAncestorContainer r) LI of
                     None \<Rightarrow> True
                   | Some pli \<Rightarrow> elementCountAt (noteBody ed) pl = 1 \<and>
                       childrenParseBack (noteBody ed) pli)
              | None \<Rightarrow>
                  (case findParentBlock (noteBody ed) (commonAncestorContainer r) of
                     Some pb \<Rightarrow> childrenParseBack (noteBody ed) pb
                   | None \<Rightarrow> markupFree (rangeToString (noteBody ed) r))) \<longrightarrow>
             nestingOk (noteBody (toggleList parse listType ed))) \<and>
            ((case findExistingList (noteBody ed) (commonAncestorContainer r) of
                Some pl \<Rightarrow>
                  (case hasParentWithTag (noteBody ed) (commonAncestorContainer r) LI of
                     None \<Rightarrow> True
                   | Some pli \<Rightarrow> childrenParseBack (noteBody ed) pli)
              | None \<Rightarrow>
                  (case findParentBlock (noteBody ed) (commonAncestorContainer r) of
                     Some pb \<Rightarrow> childrenParseBack (noteBody ed) pb
                   | None \<Rightarrow> markupFree (rangeToString (noteBody ed) r) \<and>
                       cutsInside (noteBody ed) r)) \<longrightarrow>
             contentOk (noteBody (toggleList parse listType ed))))"
proof -
  from ok have nest: "nestingOk (noteBody ed)" and cont: "contentOk (noteBody ed)"
    by (simp_all add: structureOk_def)
  from valid have el: "isElement (noteBody ed)" by (simp add: validEditor_def)
  have inline_nest: "nestingOk (noteBody (applyInlineStyle style ed))"
    if kind: "style \<in> set styleTags"
      and safe: "isRangeEmpty r \<or> styleToRemove style (noteBody ed) r \<noteq> None \<or>
        commonAncestorContainer r \<noteq> [] \<and>
        tagAt (noteBody ed) (commonAncestorContainer r) \<notin> {Some UL, Some OL}"
  proof (cases "isRangeEmpty r")
    case True
    with sel nest show ?thesis by (simp add: applyInlineStyle_def)
  next
    case ne: False
    show ?thesis
    proof (cases "styleToRemove style (noteBody ed) r")
      case (Some pe)
      show ?thesis by (rule inline_unwrap_keeps_structure[OF nest el sel ne Some kind])
    next
      case None
      with safe ne have "commonAncestorContainer r \<noteq> []"
        "tagAt (noteBody ed) (commonAncestorContainer r) \<notin> {Some UL, Some OL}" by simp_all
      then show ?thesis by (rule inline_wrap_keeps_structure[OF nest valid sel ne None kind])
    qed
  qed
  have inline_cont: "contentOk (noteBody (applyInlineStyle style ed))"
    if kind: "style \<in> set styleTags"
      and safe: "isRangeEmpty r \<or> styleToRemove style (noteBody ed) r \<noteq> None \<or>
        cutsInside (noteBody ed) r"
  proof (cases "isRangeEmpty r")
    case True
    with sel cont show ?thesis by (simp add: applyInlineStyle_def)
  next
    case ne: False
    show ?thesis
    proof (cases "styleToRemove style (noteBody ed) r")
      case (Some pe)
      show ?thesis by (rule inline_unwrap_keeps_content[OF cont sel ne Some kind])
    next
      case None
      with safe ne have "cutsInside (noteBody ed) r" by simp
      then show ?thesis by (rule inline_wrap_keeps_content[OF cont valid sel ne None])
    qed
  qed
  show ?thesis
    by (intro conjI impI)
       (erule (1) inline_nest, erule (1) inline_cont,
        erule (1) block_format_keeps_structure[OF nest valid sel],
        erule (1) block_format_keeps_content[OF cont valid sel],
        erule (1) list_toggle_keeps_structure[OF nest valid sel],
        erule list_toggle_keeps_content[OF cont valid sel])
qed

theorem toggles_keep_structure_witness:
  "nestingOk (noteBody (applyInlineStyle STRONG plainParagraph)) \<and>
   cutsInside (noteBody midWord)
     \<lparr>startContainer = [0, 0], startOffset = 2, endContainer = [0, 0], endOffset = 4\<rparr> \<and>
   structureOk (noteBody (applyInlineStyle STRONG midWord)) \<and>
   childrenParseBack (noteBody plainParagraph) [0] \<and>
   structureOk (noteBody (applyBlockFormat (\<lambda>s. [Text s]) H1 plainParagraph)) \<and>
   structureOk (noteBody (toggleList (\<lambda>s. [Text s]) OL plainParagraph)) \<and>
   structureOk (noteBody (toggleList (\<lambda>s. [Text s]) UL singleItemList))"
proof -
  let ?r = "\<lparr>startContainer = [0, 0], startOffset = 0, endContainer = [0, 0], endOffset = 5\<rparr>"
  have body: "noteBody plainParagraph = Element DIV [Element P [Text ''hello world'']]"
    and sel: "selection plainParagraph = Some ?r"
    by (simp_all add: plainParagraph_def)
  have ok: "structureOk (noteBody plainParagraph)"
    by (simp add: body structureOk_def nestingOk_def contentOk_def styleTags_def listTags_def
        blockTags_def)
  have valid: "validEditor plainParagraph"
    by (simp add: validEditor_def body sel validRange_def validBoundary_def)
  have ca: "commonAncestorContainer ?r = [0, 0]" by (simp add: commonAncestorContainer_def)
  have blk: "findParentBlock (noteBody plainParagraph) [0, 0] = Some [0]"
    by (simp add: body findParentBlock_def blockTags_def climb_simps)
  have none: "findExistingList (noteBody plainParagraph) [0, 0] = None"
    by (simp add: body findExistingList_def climb_simps)
  have parses: "childrenParseBack (noteBody plainParagraph) [0]"
    by (simp add: body childrenParseBack_def plainData_def)
  note para = toggles_keep_structure[OF ok valid sel, of STRONG H1 "\<lambda>s. [Text s]" OL,
      unfolded ca blk none]
  have first: "nestingOk (noteBody (applyInlineStyle STRONG plainParagraph))"
    by (rule para[THEN conjunct1, rule_format, THEN conjunct1, rule_format])
       (simp_all add: styleTags_def tagAt_def body)
  have second: "structureOk (noteBody (applyBlockFormat (\<lambda>s. [Text s]) H1 plainParagraph))"
    unfolding structureOk_def
    by (intro conjI para[THEN conjunct2, THEN conjunct1, rule_format, THEN conjunct1, rule_format]
          para[THEN conjunct2, THEN conjunct1, rule_format, THEN conjunct2, rule_format])
       (simp_all add: tagAt_def body parses[unfolded body])
  have third: "structureOk (noteBody (toggleList (\<lambda>s. [Text s]) OL plainParagraph))"
    unfolding structureOk_def
    by (intro conjI para[THEN conjunct2, THEN conjunct2, rule_format, THEN conjunct1, rule_format]
          para[THEN conjunct2, THEN conjunct2, rule_format, THEN conjunct2, rule_format])
       (simp_all add: body parses[unfolded body])
  let ?rm = "\<lparr>startContainer = [0, 0], startOffset = 2, endContainer = [0, 0], endOffset = 4\<rparr>"
  have bodym: "noteBody midWord = Element DIV [Element P [Text ''hello world'']]"
    and selm: "selection midWord = Some ?rm"
    by (simp_all add: midWord_def)
  have okm: "structureOk (noteBody midWord)"
    by (simp add: bodym structureOk_def nestingOk_def contentOk_def styleTags_def listTags_def
        blockTags_def)
  have validm: "validEditor midWord"
    by (simp add: validEditor_def bodym selm validRange_def validBoundary_def)
  have cam: "commonAncestorContainer ?rm = [0, 0]" by (simp add: commonAncestorContainer_def)
  have cut: "cutsInside (noteBody midWord) ?rm"
    by (simp add: bodym cutsInside_def cleanCut_def commonAncestorContainer_def)
  note mid = toggles_keep_structure[OF okm validm selm, of STRONG H1 "\<lambda>s. [Text s]" OL]
  have fourth: "structureOk (noteBody (applyInlineStyle STRONG midWord))"
    unfolding structureOk_def
    by (intro conjI mid[THEN conjunct1, rule_format, THEN conjunct1, rule_format]
          mid[THEN conjunct1, rule_format, THEN conjunct2, rule_format])
       (simp_all add: styleTags_def tagAt_def bodym cam cut[unfolded bodym])
  have body': "noteBody singleItemList = Element DIV [Element UL [Element LI [Text ''a'']]]"
    and sel': "selection singleItemList = Some (collapsedAt [0, 0, 0] 1)"
    by (simp_all add: singleItemList_def)
  have ok': "structureOk (noteBody singleItemList)"
    by (simp add: body' structureOk_def nestingOk_def contentOk_def styleTags_def listTags_def
        blockTags_def)
  have valid': "validEditor singleItemList"
    by (simp add: validEditor_def body' sel' validRange_def validBoundary_def collapsedAt_def)
  have ca': "commonAncestorContainer (collapsedAt [0, 0, 0] 1) = [0, 0, 0]"
    by (simp add: commonAncestorContainer_def collapsedAt_def)
  have lst: "findExistingList (noteBody singleItemList) [0, 0, 0] = Some [0]"
    by (simp add: body' findExistingList_def climb_simps)
  have item: "hasParentWithTag (noteBody singleItemList) [0, 0, 0] LI = Some [0, 0]"
    by (simp add: body' climb_simps)
  note single = toggles_keep_structure[OF ok' valid' sel', of STRONG H1 "\<lambda>s. [Text s]" UL,
      unfolded ca' lst item]
  have fifth: "structureOk (noteBody (toggleList (\<lambda>s. [Text s]) UL singleItemList))"
    unfolding structureOk_def
    by (intro conjI single[THEN conjunct2, THEN conjunct2, rule_format, THEN conjunct1, rule_format]
          single[THEN conjunct2, THEN conjunct2, rule_format, THEN conjunct2, rule_format])
       (simp_all add: elementCountAt_def childElementCount_def childrenParseBack_def body'
          plainData_def)
  from first cut fourth parses second third fifth show ?thesis by blast
qed

text \<open>
  The claim as stated fails for each invariant it leaves to the engine. Taking the
  middle item out of a three-item list leaves a \<open>P\<close> element among the children of
  the \<open>UL\<close> element. Making the first word of a paragraph bold leaves an empty text
  node before the new element. Turning the whole text of two paragraphs into a heading
  leaves the two paragraphs with an empty text node each.
\<close>

theorem list_invariant_broken_counterexample:
  "structureOk (noteBody listABC) \<and>
   noteBody (toggleList (\<lambda>s. [Text s]) UL listABC) =
     Element DIV [Element UL [Element LI [Text ''A''], Element P [Text ''B''], Element LI [Text ''C'']]] \<and>
   \<not> nestingOk (noteBody (toggleList (\<lambda>s. [Text s]) UL listABC)) \<and>
   validEditor plainParagraph \<and> structureOk (noteBody plainParagraph) \<and>
   noteBody (applyInlineStyle STRONG plainParagraph) =
     Element DIV [Element P [Text [], Element STRONG [Text ''hello''], Text '' world'']] \<and>
   \<not> contentOk (noteBody (applyInlineStyle STRONG plainParagraph)) \<and>
   validEditor twoParagraphs \<and> structureOk (noteBody twoParagraphs) \<and>
   noteBody (applyBlockFormat (\<lambda>s. [Text s]) H1 twoParagraphs) =
     Element DIV [Element P [Text []], Element H1 [Text ''abcd''], Element P [Text []]] \<and>
   \<not> contentOk (noteBody (applyBlockFormat (\<lambda>s. [Text s]) H1 twoParagraphs))"
  by (simp add: listABC_def plainParagraph_def twoParagraphs_def
      validEditor_def validRange_def validBoundary_def
      toggleList_def applyBlockFormat_def applyInlineStyle_def styleToRemove_def
      findExistingList_def commonAncestorContainer_def collapsedAt_def childElementCount_def
      replaceAt_def reparse_def copyInnerHTML_def plainData_def findParentBlock_def blockTags_def
      isRangeEmpty_def rangeToString_def extractContents_def deleteContents_def
      surroundContents_def partiallyContainsNonText_def insertNode_def selectNodeContents_def
      htmlOfText_def markupFree_def
      climb_simps structureOk_def nestingOk_def contentOk_def styleTags_def listTags_def Let_def)

end
